theory Spec2Isabelle
  imports Main "HOL-Library.AList"
begin

section \<open>Text: characters and string helpers\<close>

text \<open>
  A Python \<^verbatim>\<open>str\<close> is a sequence of code points. The model uses \<^typ>\<open>string\<close>, whose
  characters are the code points 0 to 255; code points above 255 have no image in
  the model. The character classes below are the ones Python's \<^verbatim>\<open>re\<close> module
  (\<^verbatim>\<open>\s\<close>, \<^verbatim>\<open>\w\<close> on a \<^verbatim>\<open>str\<close> pattern) and \<^verbatim>\<open>str.lower\<close>, \<^verbatim>\<open>str.strip\<close> use on
  that range.
\<close>

definition is_space :: "char \<Rightarrow> bool" where
  "is_space c = (let n = (of_char c :: nat) in
     (9 \<le> n \<and> n \<le> 13) \<or> (28 \<le> n \<and> n \<le> 32) \<or> n = 133 \<or> n = 160)"

definition is_word :: "char \<Rightarrow> bool" where
  "is_word c = (let n = (of_char c :: nat) in
     (48 \<le> n \<and> n \<le> 57) \<or> (65 \<le> n \<and> n \<le> 90) \<or> n = 95 \<or> (97 \<le> n \<and> n \<le> 122) \<or>
     n = 170 \<or> n = 178 \<or> n = 179 \<or> n = 181 \<or> n = 185 \<or> n = 186 \<or>
     (188 \<le> n \<and> n \<le> 190) \<or> (192 \<le> n \<and> n \<le> 214) \<or> (216 \<le> n \<and> n \<le> 246) \<or>
     248 \<le> n)"

definition lower_char :: "char \<Rightarrow> char" where
  "lower_char c = (let n = (of_char c :: nat) in
     if (65 \<le> n \<and> n \<le> 90) \<or> (192 \<le> n \<and> n \<le> 214) \<or> (216 \<le> n \<and> n \<le> 222)
     then char_of (n + 32) else c)"

text \<open>\<^verbatim>\<open>str.lower()\<close>\<close>

definition lower :: "string \<Rightarrow> string" where
  "lower s = map lower_char s"

text \<open>\<^verbatim>\<open>s.startswith(p)\<close>\<close>

fun startswith :: "string \<Rightarrow> string \<Rightarrow> bool" where
  "startswith s [] = True"
| "startswith [] (p # ps) = False"
| "startswith (c # cs) (p # ps) = (c = p \<and> startswith cs ps)"

text \<open>\<^verbatim>\<open>sub in s\<close>\<close>

fun contains :: "string \<Rightarrow> string \<Rightarrow> bool" where
  "contains sub [] = (sub = [])"
| "contains sub (c # cs) = (startswith (c # cs) sub \<or> contains sub cs)"

text \<open>\<^verbatim>\<open>s.strip()\<close> and \<^verbatim>\<open>s.strip('-')\<close>: characters of a class removed at both ends.\<close>

definition lstrip :: "(char \<Rightarrow> bool) \<Rightarrow> string \<Rightarrow> string" where
  "lstrip P s = dropWhile P s"

definition rstrip :: "(char \<Rightarrow> bool) \<Rightarrow> string \<Rightarrow> string" where
  "rstrip P s = rev (dropWhile P (rev s))"

definition strip :: "(char \<Rightarrow> bool) \<Rightarrow> string \<Rightarrow> string" where
  "strip P s = rstrip P (lstrip P s)"

text \<open>\<^verbatim>\<open>s.split(sep)\<close> for a one-character separator class: never the empty list.\<close>

fun split_on :: "(char \<Rightarrow> bool) \<Rightarrow> string \<Rightarrow> string list" where
  "split_on P [] = [] # []"
| "split_on P (c # cs) =
     (if P c then [] # split_on P cs
      else (case split_on P cs of [] \<Rightarrow> [c] # [] | w # ws \<Rightarrow> (c # w) # ws))"

text \<open>\<^verbatim>\<open>sep.join(parts)\<close>\<close>

fun join :: "string \<Rightarrow> string list \<Rightarrow> string" where
  "join sep [] = []"
| "join sep [w] = w"
| "join sep (w # v # ws) = w @ sep @ join sep (v # ws)"

section \<open>slugify\<close>

text \<open>
  \<^verbatim>\<open>re.sub(r'[^\w\s-]', '', text)\<close>: every character outside the class is deleted.
\<close>

definition slug_keep :: "char \<Rightarrow> bool" where
  "slug_keep c = (is_word c \<or> is_space c \<or> c = CHR ''-'')"

definition sub_strip :: "string \<Rightarrow> string" where
  "sub_strip s = filter slug_keep s"

text \<open>
  \<^verbatim>\<open>re.sub(r'[-\s]+', '-', text)\<close>: scanning left to right, every maximal run of
  separators is replaced by one hyphen. The flag says that the previous character
  belonged to a run already replaced.
\<close>

definition is_sep :: "char \<Rightarrow> bool" where
  "is_sep c = (c = CHR ''-'' \<or> is_space c)"

fun sub_seps :: "bool \<Rightarrow> string \<Rightarrow> string" where
  "sub_seps run [] = []"
| "sub_seps run (c # cs) =
     (if is_sep c then (if run then sub_seps True cs else CHR ''-'' # sub_seps True cs)
      else c # sub_seps False cs)"

definition is_hyphen :: "char \<Rightarrow> bool" where
  "is_hyphen c = (c = CHR ''-'')"

definition slugify :: "string \<Rightarrow> string" where
  "slugify text = strip is_hyphen (sub_seps False (sub_strip (lower text)))"

text \<open>
  The slug in the words of the specification: the lower-cased text, without the
  characters outside word/space/hyphen, cut at its separators; the non-empty pieces
  joined by single hyphens.
\<close>

abbreviation nonempty_words :: "string list \<Rightarrow> string list" where
  "nonempty_words ws \<equiv> filter (\<lambda>w. w \<noteq> []) ws"

definition slug_words :: "string \<Rightarrow> string list" where
  "slug_words text = nonempty_words (split_on is_sep (sub_strip (lower text)))"

definition slugify_spec :: "string \<Rightarrow> string" where
  "slugify_spec text = join ''-'' (slug_words text)"

section \<open>Values\<close>

text \<open>
  The values Python builds from JSON text and the dictionaries the program builds
  itself: \<^verbatim>\<open>None\<close>, booleans, numbers (kept as their literal), strings, lists, and
  dictionaries with string keys. A dictionary keeps its keys in insertion order, so
  it is an association list with distinct keys; \<^verbatim>\<open>d[k] = v\<close> is \<^const>\<open>AList.update\<close>
  (the value is replaced in place, a new key goes to the end).
\<close>

datatype json =
    JNull
  | JBool bool
  | JNum string
  | JStr string
  | JArr "json list"
  | JObj "(string \<times> json) list"

section \<open>parse\_userscript\_metadata\<close>

definition newline :: char where
  "newline = CHR 0x0A"

text \<open>
  \<^verbatim>\<open>re.search(r'//\s*==UserScript==(.*?)//\s*==/UserScript==', script, re.DOTALL)\<close>.
  \<open>match_begin\<close> matches \<^verbatim>\<open>//\s*==UserScript==\<close> at the start of its argument and
  returns what follows; \<open>match_end\<close> matches \<^verbatim>\<open>//\s*==/UserScript==\<close> there.
  Whitespace is never the start of either sentinel, so the greedy \<^verbatim>\<open>\s*\<close> takes the
  whole run of whitespace.
\<close>

definition match_begin :: "string \<Rightarrow> string option" where
  "match_begin s =
     (if startswith s ''//'' then
        (let r = dropWhile is_space (drop 2 s) in
         if startswith r ''==UserScript=='' then Some (drop 14 r) else None)
      else None)"

definition match_end :: "string \<Rightarrow> bool" where
  "match_end s =
     (startswith s ''//'' \<and> startswith (dropWhile is_space (drop 2 s)) ''==/UserScript=='')"

text \<open>The lazy group \<^verbatim>\<open>(.*?)\<close>: the shortest text after which the end pattern matches.\<close>

fun lazy_group :: "string \<Rightarrow> string option" where
  "lazy_group [] = None"
| "lazy_group (c # cs) =
     (if match_end (c # cs) then Some [] else map_option ((#) c) (lazy_group cs))"

text \<open>The search tries every start position from the left; group 1 of the first match.\<close>

fun search_header :: "string \<Rightarrow> string option" where
  "search_header [] = None"
| "search_header (c # cs) =
     (case match_begin (c # cs) of
        None \<Rightarrow> search_header cs
      | Some r \<Rightarrow> (case lazy_group r of None \<Rightarrow> search_header cs | Some h \<Rightarrow> Some h))"

text \<open>
  \<^verbatim>\<open>re.match(r'@(\w+)\s+(.*)', line)\<close>: the key is the maximal run of word characters
  after the at sign, at least one whitespace character follows, and the value is the
  rest of the line (\<^verbatim>\<open>.\<close> stops at a newline).
\<close>

definition match_entry :: "string \<Rightarrow> (string \<times> string) option" where
  "match_entry line =
     (case line of
        [] \<Rightarrow> None
      | c # r \<Rightarrow>
          if c \<noteq> CHR ''@'' then None
          else
            (let key = takeWhile is_word r; r1 = dropWhile is_word r in
             if key = [] then None
             else (case r1 of
                     [] \<Rightarrow> None
                   | d # _ \<Rightarrow>
                       if is_space d
                       then Some (key, takeWhile (\<lambda>x. x \<noteq> newline) (dropWhile is_space r1))
                       else None)))"

text \<open>The body of the loop over the header's lines, up to the regular expression.\<close>

definition header_entry :: "string \<Rightarrow> (string \<times> string) option" where
  "header_entry raw =
     (let line = strip is_space raw in
      if startswith line ''//'' then match_entry (strip is_space (drop 2 line)) else None)"

text \<open>
  The three-way update of the dictionary: a key seen before holds a list, which
  grows, or a string, which becomes a two-element list; a new key holds the string.
\<close>

definition add_entry :: "(string \<times> json) list \<Rightarrow> string \<times> string \<Rightarrow> (string \<times> json) list" where
  "add_entry metadata kv =
     (case kv of (key, v) \<Rightarrow>
        (case map_of metadata key of
           Some (JArr vs) \<Rightarrow> AList.update key (JArr (vs @ [JStr v])) metadata
         | Some old \<Rightarrow> AList.update key (JArr [old, JStr v]) metadata
         | None \<Rightarrow> AList.update key (JStr v) metadata))"

definition header_line :: "(string \<times> json) list \<Rightarrow> string \<Rightarrow> (string \<times> json) list" where
  "header_line metadata raw =
     (case header_entry raw of None \<Rightarrow> metadata | Some kv \<Rightarrow> add_entry metadata kv)"

definition parse_userscript_metadata :: "string \<Rightarrow> (string \<times> json) list" where
  "parse_userscript_metadata script =
     (case search_header script of
        None \<Rightarrow> []
      | Some header \<Rightarrow> foldl header_line [] (split_on (\<lambda>c. c = newline) header))"

text \<open>
  The parser in the words of the specification. \<open>header_entries\<close> lists what the
  lines of a header block contribute, in line order; \<open>values_of\<close> picks the values
  given to one key; \<open>metadata_value\<close> is the value the mapping holds for a key with
  these values: none, a scalar, or the list in the order seen. \<open>first_seen\<close> keeps the
  first occurrence of every element.
\<close>

definition header_entries :: "string \<Rightarrow> (string \<times> string) list" where
  "header_entries header = List.map_filter header_entry (split_on (\<lambda>c. c = newline) header)"

definition values_of :: "string \<Rightarrow> (string \<times> string) list \<Rightarrow> string list" where
  "values_of key entries = map snd (filter (\<lambda>kv. fst kv = key) entries)"

definition metadata_value :: "string list \<Rightarrow> json option" where
  "metadata_value vs =
     (case vs of [] \<Rightarrow> None | [v] \<Rightarrow> Some (JStr v) | _ \<Rightarrow> Some (JArr (map JStr vs)))"

definition first_seen :: "'a list \<Rightarrow> 'a list" where
  "first_seen xs = rev (remdups (rev xs))"

text \<open>
  What holds of the dictionary after the lines that contributed \<open>es\<close>: every key
  has the value its contributions give it, and the keys stand in first-seen order.
\<close>

definition md_inv :: "(string \<times> json) list \<Rightarrow> (string \<times> string) list \<Rightarrow> bool" where
  "md_inv md es \<longleftrightarrow>
     (\<forall>key. map_of md key = metadata_value (values_of key es)) \<and>
     map fst md = first_seen (map fst es)"

text \<open>
  The header block in the words of the specification: the text between the first
  begin sentinel and the first end sentinel after it.
\<close>

fun first_begin :: "string \<Rightarrow> string option" where
  "first_begin [] = None"
| "first_begin (c # cs) =
     (case match_begin (c # cs) of None \<Rightarrow> first_begin cs | Some r \<Rightarrow> Some r)"

definition header_block :: "string \<Rightarrow> string option" where
  "header_block script = (case first_begin script of None \<Rightarrow> None | Some r \<Rightarrow> lazy_group r)"

section \<open>Faults\<close>

text \<open>
  The exceptions that occur in the modelled code. \<open>OutsideModel\<close> is not a Python
  exception: the decoder below answers with it where the text denotes a code point
  above 255, which \<^typ>\<open>string\<close> cannot hold.
\<close>

datatype fault =
    JSONDecodeError
  | RecursionError
  | AttributeError
  | KeyError
  | TypeError
  | OutsideModel

section \<open>The JSON decoder of the standard library\<close>

text \<open>
  \<^verbatim>\<open>json.loads\<close> belongs to Python's library, not to the repository. The scanner
  below takes the decoder as a parameter; \<open>json_loads\<close> is the instance used for
  concrete buffers. It follows the grammar the library's decoder accepts (RFC 8259,
  plus \<^verbatim>\<open>NaN\<close>, \<^verbatim>\<open>Infinity\<close> and \<^verbatim>\<open>-Infinity\<close>, strict strings, the last of
  repeated keys wins). The interpreter's recursion limit is not modelled.
\<close>

datatype token =
    TLBrace | TRBrace | TLBrack | TRBrack | TColon | TComma
  | TString string
  | TAtom string

datatype lexstate =
    LNorm
  | LStr string
  | LEsc string
  | LUni string "nat list"
  | LAtom string

definition backslash :: char where
  "backslash = CHR 0x5C"

definition dquote :: char where
  "dquote = CHR 0x22"

definition is_digit :: "char \<Rightarrow> bool" where
  "is_digit c = (let n = (of_char c :: nat) in 48 \<le> n \<and> n \<le> 57)"

definition is_json_space :: "char \<Rightarrow> bool" where
  "is_json_space c = (c = CHR '' '' \<or> c = CHR 0x09 \<or> c = CHR 0x0A \<or> c = CHR 0x0D)"

text \<open>The characters of numbers and of the literals; a maximal run of them is one atom.\<close>

definition is_atom_char :: "char \<Rightarrow> bool" where
  "is_atom_char c = (let n = (of_char c :: nat) in
     (48 \<le> n \<and> n \<le> 57) \<or> (65 \<le> n \<and> n \<le> 90) \<or> (97 \<le> n \<and> n \<le> 122) \<or>
     c = CHR ''-'' \<or> c = CHR ''+'' \<or> c = CHR ''.'')"

definition hex_digit :: "char \<Rightarrow> nat option" where
  "hex_digit c = (let n = (of_char c :: nat) in
     if 48 \<le> n \<and> n \<le> 57 then Some (n - 48)
     else if 65 \<le> n \<and> n \<le> 70 then Some (n - 55)
     else if 97 \<le> n \<and> n \<le> 102 then Some (n - 87)
     else None)"

definition unescape :: "char \<Rightarrow> char option" where
  "unescape c =
     (if c = dquote \<or> c = backslash \<or> c = CHR ''/'' then Some c
      else if c = CHR ''b'' then Some (CHR 0x08)
      else if c = CHR ''f'' then Some (CHR 0x0C)
      else if c = CHR ''n'' then Some (CHR 0x0A)
      else if c = CHR ''r'' then Some (CHR 0x0D)
      else if c = CHR ''t'' then Some (CHR 0x09)
      else None)"

text \<open>A character read between tokens: the token it is, if any, and the next state.\<close>

definition lex_start :: "char \<Rightarrow> (token list \<times> lexstate) option" where
  "lex_start c =
     (if c = CHR ''{'' then Some ([TLBrace], LNorm)
      else if c = CHR ''}'' then Some ([TRBrace], LNorm)
      else if c = CHR ''['' then Some ([TLBrack], LNorm)
      else if c = CHR '']'' then Some ([TRBrack], LNorm)
      else if c = CHR '':'' then Some ([TColon], LNorm)
      else if c = CHR '','' then Some ([TComma], LNorm)
      else if c = dquote then Some ([], LStr [])
      else if is_json_space c then Some ([], LNorm)
      else if is_atom_char c then Some ([], LAtom [c])
      else None)"

definition lex_step :: "lexstate \<Rightarrow> char \<Rightarrow> fault + (token list \<times> lexstate)" where
  "lex_step st c =
     (case st of
        LNorm \<Rightarrow> (case lex_start c of None \<Rightarrow> Inl JSONDecodeError | Some r \<Rightarrow> Inr r)
      | LAtom a \<Rightarrow>
          if is_atom_char c then Inr ([], LAtom (a @ [c]))
          else (case lex_start c of
                  None \<Rightarrow> Inl JSONDecodeError
                | Some (ts, st') \<Rightarrow> Inr (TAtom a # ts, st'))
      | LStr s \<Rightarrow>
          if c = dquote then Inr ([TString s], LNorm)
          else if c = backslash then Inr ([], LEsc s)
          else if (of_char c :: nat) < 32 then Inl JSONDecodeError
          else Inr ([], LStr (s @ [c]))
      | LEsc s \<Rightarrow>
          if c = CHR ''u'' then Inr ([], LUni s [])
          else (case unescape c of
                  None \<Rightarrow> Inl JSONDecodeError
                | Some d \<Rightarrow> Inr ([], LStr (s @ [d])))
      | LUni s ds \<Rightarrow>
          (case hex_digit c of
             None \<Rightarrow> Inl JSONDecodeError
           | Some d \<Rightarrow>
               if length ds < 3 then Inr ([], LUni s (ds @ [d]))
               else (let n = foldl (\<lambda>a h. 16 * a + h) 0 (ds @ [d]) in
                     if n < 256 then Inr ([], LStr (s @ [char_of n]))
                     else Inl OutsideModel)))"

fun lex :: "lexstate \<Rightarrow> string \<Rightarrow> fault + token list" where
  "lex st [] =
     (case st of
        LNorm \<Rightarrow> Inr []
      | LAtom a \<Rightarrow> Inr [TAtom a]
      | _ \<Rightarrow> Inl JSONDecodeError)"
| "lex st (c # cs) =
     (case lex_step st c of
        Inl e \<Rightarrow> Inl e
      | Inr (ts, st') \<Rightarrow> (case lex st' cs of Inl e \<Rightarrow> Inl e | Inr rest \<Rightarrow> Inr (ts @ rest)))"

text \<open>
  Numbers: \<^verbatim>\<open>-?(0|[1-9]\d*)(\.\d+)?([eE][-+]?\d+)?\<close>, the whole atom.
\<close>

definition number_exponent :: "string \<Rightarrow> bool" where
  "number_exponent s =
     (case s of
        [] \<Rightarrow> True
      | c # r \<Rightarrow>
          (c = CHR ''e'' \<or> c = CHR ''E'') \<and>
          (let d = (case r of [] \<Rightarrow> [] | x # y \<Rightarrow> if x = CHR ''-'' \<or> x = CHR ''+'' then y else r)
           in d \<noteq> [] \<and> list_all is_digit d))"

definition number_fraction :: "string \<Rightarrow> bool" where
  "number_fraction s =
     (case s of
        [] \<Rightarrow> True
      | c # r \<Rightarrow>
          if c = CHR ''.'' then takeWhile is_digit r \<noteq> [] \<and> number_exponent (dropWhile is_digit r)
          else number_exponent s)"

definition valid_number :: "string \<Rightarrow> bool" where
  "valid_number s =
     (let u = (case s of [] \<Rightarrow> [] | c # r \<Rightarrow> if c = CHR ''-'' then r else s);
          n = takeWhile is_digit u
      in n \<noteq> [] \<and> (n = ''0'' \<or> \<not> startswith n ''0'') \<and> number_fraction (dropWhile is_digit u))"

definition atom_value :: "string \<Rightarrow> json option" where
  "atom_value a =
     (if a = ''null'' then Some JNull
      else if a = ''true'' then Some (JBool True)
      else if a = ''false'' then Some (JBool False)
      else if a = ''NaN'' \<or> a = ''Infinity'' \<or> a = ''-Infinity'' then Some (JNum a)
      else if valid_number a then Some (JNum a)
      else None)"

text \<open>
  The parser reads the tokens one at a time and keeps the enclosing arrays and
  objects on a stack: an array with its items so far, an object with its pairs so
  far, and an object waiting for the value of a key.
\<close>

datatype frame =
    FArr "json list"
  | FObj "(string \<times> json) list"
  | FVal "(string \<times> json) list" string

datatype pmode = MValue | MArr0 | MObj0 | MKey | MColon string | MAfter json

definition open_value :: "token \<Rightarrow> frame list \<Rightarrow> (pmode \<times> frame list) option" where
  "open_value t st =
     (case t of
        TString s \<Rightarrow> Some (MAfter (JStr s), st)
      | TAtom a \<Rightarrow> (case atom_value a of None \<Rightarrow> None | Some v \<Rightarrow> Some (MAfter v, st))
      | TLBrack \<Rightarrow> Some (MArr0, FArr [] # st)
      | TLBrace \<Rightarrow> Some (MObj0, FObj [] # st)
      | _ \<Rightarrow> None)"

definition parse_step :: "pmode \<Rightarrow> frame list \<Rightarrow> token \<Rightarrow> (pmode \<times> frame list) option" where
  "parse_step m st t =
     (case m of
        MValue \<Rightarrow> open_value t st
      | MArr0 \<Rightarrow>
          (case st of
             FArr items # up \<Rightarrow> if t = TRBrack then Some (MAfter (JArr items), up) else open_value t st
           | _ \<Rightarrow> None)
      | MObj0 \<Rightarrow>
          (case (st, t) of
             (FObj ps # up, TRBrace) \<Rightarrow> Some (MAfter (JObj ps), up)
           | (FObj ps # up, TString k) \<Rightarrow> Some (MColon k, st)
           | _ \<Rightarrow> None)
      | MKey \<Rightarrow>
          (case (st, t) of
             (FObj ps # up, TString k) \<Rightarrow> Some (MColon k, st)
           | _ \<Rightarrow> None)
      | MColon k \<Rightarrow>
          (case (st, t) of
             (FObj ps # up, TColon) \<Rightarrow> Some (MValue, FVal ps k # up)
           | _ \<Rightarrow> None)
      | MAfter v \<Rightarrow>
          (case (st, t) of
             (FArr items # up, TComma) \<Rightarrow> Some (MValue, FArr (items @ [v]) # up)
           | (FArr items # up, TRBrack) \<Rightarrow> Some (MAfter (JArr (items @ [v])), up)
           | (FVal ps k # up, TComma) \<Rightarrow> Some (MKey, FObj (AList.update k v ps) # up)
           | (FVal ps k # up, TRBrace) \<Rightarrow> Some (MAfter (JObj (AList.update k v ps)), up)
           | _ \<Rightarrow> None))"

fun parse_tokens :: "pmode \<Rightarrow> frame list \<Rightarrow> token list \<Rightarrow> json option" where
  "parse_tokens m st [] = (case (m, st) of (MAfter v, []) \<Rightarrow> Some v | _ \<Rightarrow> None)"
| "parse_tokens m st (t # ts) =
     (case parse_step m st t of None \<Rightarrow> None | Some (m', st') \<Rightarrow> parse_tokens m' st' ts)"

definition json_loads :: "string \<Rightarrow> fault + json" where
  "json_loads s =
     (case lex LNorm s of
        Inl e \<Rightarrow> Inl e
      | Inr ts \<Rightarrow> (case parse_tokens MValue [] ts of None \<Rightarrow> Inl JSONDecodeError | Some v \<Rightarrow> Inr v))"

section \<open>parse\_scripts\_from\_text\<close>

definition sentinel :: string where
  "sentinel = ''==UserScript==''"

text \<open>
  \<^verbatim>\<open>text.find('{"', idx)\<close>: the least offset at or after \<open>idx\<close> where the two
  characters stand, \<open>None\<close> for Python's -1.
\<close>

fun find_at :: "string \<Rightarrow> nat \<Rightarrow> nat option" where
  "find_at [] i = None"
| "find_at (c # cs) i =
     (if c = CHR ''{'' \<and> startswith cs [dquote] then Some i else find_at cs (Suc i))"

definition find_from :: "string \<Rightarrow> nat \<Rightarrow> nat option" where
  "find_from text idx = find_at (drop idx text) idx"

text \<open>\<^verbatim>\<open>text[a:b]\<close> for \<open>a \<le> b\<close>.\<close>

definition slice :: "string \<Rightarrow> nat \<Rightarrow> nat \<Rightarrow> string" where
  "slice text a b = take (b - a) (drop a text)"

text \<open>
  The inner \<^verbatim>\<open>for i, c in enumerate(text[start:], start)\<close> loop with its three
  variables \<^verbatim>\<open>brace_count\<close>, \<^verbatim>\<open>in_string\<close> and \<^verbatim>\<open>escape_next\<close>. It returns
  \<open>Some (i + 1)\<close> where the loop breaks and \<open>None\<close> where the text ends first.
\<close>

fun brace_scan :: "string \<Rightarrow> nat \<Rightarrow> int \<Rightarrow> bool \<Rightarrow> bool \<Rightarrow> nat option" where
  "brace_scan [] i brace_count in_string escape_next = None"
| "brace_scan (c # cs) i brace_count in_string escape_next =
     (if escape_next then brace_scan cs (Suc i) brace_count in_string False
      else if c = backslash then brace_scan cs (Suc i) brace_count in_string True
      else if c = dquote then brace_scan cs (Suc i) brace_count (\<not> in_string) False
      else if in_string then brace_scan cs (Suc i) brace_count in_string False
      else if c = CHR ''{'' then brace_scan cs (Suc i) (brace_count + 1) in_string False
      else if c = CHR ''}'' then
        (if brace_count - 1 = 0 then Some (Suc i)
         else brace_scan cs (Suc i) (brace_count - 1) in_string False)
      else brace_scan cs (Suc i) brace_count in_string False)"

text \<open>The value of \<^verbatim>\<open>end\<close> after the inner loop: \<open>start\<close> when it never broke.\<close>

definition record_end :: "string \<Rightarrow> nat \<Rightarrow> nat" where
  "record_end text start =
     (case brace_scan (drop start text) start 0 False False of None \<Rightarrow> start | Some e \<Rightarrow> e)"

text \<open>
  What a decoded candidate adds to \<^verbatim>\<open>found\<close>: for a dictionary, every pair whose
  value is a string containing the sentinel, in the dictionary's order.
\<close>

fun collect_items :: "(string \<times> json) list \<Rightarrow> (string \<times> string) list \<Rightarrow> (string \<times> string) list" where
  "collect_items [] found = found"
| "collect_items ((uuid, v) # items) found =
     (case v of
        JStr script \<Rightarrow>
          if contains sentinel script then collect_items items (AList.update uuid script found)
          else collect_items items found
      | _ \<Rightarrow> collect_items items found)"

definition collect :: "json \<Rightarrow> (string \<times> string) list \<Rightarrow> (string \<times> string) list" where
  "collect data found = (case data of JObj items \<Rightarrow> collect_items items found | _ \<Rightarrow> found)"

text \<open>
  One pass through the body of the \<^verbatim>\<open>while True\<close> loop. \<open>Stop\<close> is the
  \<^verbatim>\<open>break\<close>; \<open>Advance start idx found\<close> is an iteration that looked at the
  candidate at \<open>start\<close> and goes on with the new \<open>idx\<close> and \<open>found\<close>; \<open>Abort\<close> is
  an exception other than \<^verbatim>\<open>json.JSONDecodeError\<close> leaving the decoder.
\<close>

datatype scan_step = Stop | Advance nat nat "(string \<times> string) list" | Abort fault

definition scan_body ::
  "(string \<Rightarrow> fault + json) \<Rightarrow> string \<Rightarrow> nat \<Rightarrow> (string \<times> string) list \<Rightarrow> scan_step" where
  "scan_body loads text idx found =
     (case find_from text idx of
        None \<Rightarrow> Stop
      | Some start \<Rightarrow>
          if \<not> contains sentinel (slice text start (start + 5000))
          then Advance start (start + 1) found
          else
            (let end = record_end text start in
             if end > start then
               (case loads (slice text start end) of
                  Inr data \<Rightarrow> Advance start end (collect data found)
                | Inl JSONDecodeError \<Rightarrow> Advance start end found
                | Inl e \<Rightarrow> Abort e)
             else Advance start (start + 1) found))"

lemma find_at_bounds:
  "find_at s i = Some p \<Longrightarrow> i \<le> p \<and> p < i + length s"
proof (induction s arbitrary: i)
  case Nil
  then show ?case by simp
next
  case (Cons c cs)
  show ?case
  proof (cases "c = CHR ''{'' \<and> startswith cs [dquote]")
    case True
    with Cons.prems show ?thesis by simp
  next
    case False
    with Cons.prems have "find_at cs (Suc i) = Some p" by simp
    from Cons.IH [OF this] show ?thesis by simp
  qed
qed

lemma find_from_bounds:
  "find_from text idx = Some start \<Longrightarrow> idx \<le> start \<and> start < length text"
proof -
  assume a: "find_from text idx = Some start"
  then have "idx \<le> start \<and> start < idx + length (drop idx text)"
    unfolding find_from_def by (rule find_at_bounds)
  then show ?thesis by auto
qed

lemma scan_body_advance:
  assumes "scan_body loads text idx found = Advance start idx' found'"
  shows "idx \<le> start \<and> start < idx' \<and> start < length text"
proof -
  from assms obtain s where f: "find_from text idx = Some s"
    by (cases "find_from text idx") (auto simp: scan_body_def)
  from find_from_bounds [OF f] have b: "idx \<le> s" "s < length text" by auto
  from assms f have "start = s \<and> s < idx'"
    by (auto simp: scan_body_def Let_def split: if_splits sum.splits fault.splits)
  with b show ?thesis by simp
qed

text \<open>
  The loop. Every iteration that does not stop moves \<open>idx\<close> beyond a candidate that
  lies inside the text, so the distance from \<open>idx\<close> to the end of the text decreases.
\<close>

function scan_loop ::
  "(string \<Rightarrow> fault + json) \<Rightarrow> string \<Rightarrow> nat \<Rightarrow> (string \<times> string) list
   \<Rightarrow> fault + (string \<times> string) list" where
  "scan_loop loads text idx found =
     (case scan_body loads text idx found of
        Stop \<Rightarrow> Inr found
      | Abort e \<Rightarrow> Inl e
      | Advance start idx' found' \<Rightarrow> scan_loop loads text idx' found')"
  by pat_completeness auto
termination
proof (relation "measure (\<lambda>(loads, text, idx, found). length text - idx)")
  show "wf (measure (\<lambda>(loads, text, idx, found). length text - idx))" by simp
next
  fix loads buf idx found start idx' found'
  assume "scan_body loads buf idx found = Advance start idx' found'"
  from scan_body_advance [OF this]
  have "length buf - idx' < length buf - idx" by arith
  then show "((loads, buf, idx', found'), (loads, buf, idx, found))
        \<in> measure (\<lambda>(loads, text, idx, found). length text - idx)"
    by simp
qed

declare scan_loop.simps [simp del]

definition parse_scripts_from_text ::
  "(string \<Rightarrow> fault + json) \<Rightarrow> string \<Rightarrow> fault + (string \<times> string) list" where
  "parse_scripts_from_text loads text = scan_loop loads text 0 []"

text \<open>
  The candidate offsets the loop looks at, in order: the successive values of
  \<^verbatim>\<open>start\<close>. The function runs the same iterations as \<open>scan_loop\<close>.
\<close>

function scan_starts ::
  "(string \<Rightarrow> fault + json) \<Rightarrow> string \<Rightarrow> nat \<Rightarrow> (string \<times> string) list \<Rightarrow> nat list" where
  "scan_starts loads text idx found =
     (case scan_body loads text idx found of
        Stop \<Rightarrow> []
      | Abort e \<Rightarrow> []
      | Advance start idx' found' \<Rightarrow> start # scan_starts loads text idx' found')"
  by pat_completeness auto
termination
proof (relation "measure (\<lambda>(loads, text, idx, found). length text - idx)")
  show "wf (measure (\<lambda>(loads, text, idx, found). length text - idx))" by simp
next
  fix loads buf idx found start idx' found'
  assume "scan_body loads buf idx found = Advance start idx' found'"
  from scan_body_advance [OF this]
  have "length buf - idx' < length buf - idx" by arith
  then show "((loads, buf, idx', found'), (loads, buf, idx, found))
        \<in> measure (\<lambda>(loads, text, idx, found). length text - idx)"
    by simp
qed

declare scan_starts.simps [simp del]

section \<open>The scanner's input in the words of the specification\<close>

text \<open>
  The candidate starts of a buffer are the offsets where \<^verbatim>\<open>{"\<close> stands. A candidate
  is skipped within a limit when the scanner rejects it for lacking the sentinel in
  its window, or never closes its braces, or closes them at or before the limit and
  the decoder rejects the text between. A well-formed record starts with \<^verbatim>\<open>{"\<close>,
  has the sentinel among its first 5000 characters, closes its braces exactly at its
  last character, and is decoded to a dictionary.
\<close>

definition candidates :: "string \<Rightarrow> nat list" where
  "candidates text = filter (\<lambda>p. find_from text p = Some p) [0..<length text]"

definition candidate_skipped ::
  "(string \<Rightarrow> fault + json) \<Rightarrow> string \<Rightarrow> nat \<Rightarrow> nat \<Rightarrow> bool" where
  "candidate_skipped loads text limit p \<longleftrightarrow>
     \<not> contains sentinel (slice text p (p + 5000))
     \<or> \<not> (record_end text p > p)
     \<or> (record_end text p \<le> limit \<and>
        loads (slice text p (record_end text p)) = Inl JSONDecodeError)"

definition well_formed_record ::
  "(string \<Rightarrow> fault + json) \<Rightarrow> string \<Rightarrow> (string \<times> json) list \<Rightarrow> bool" where
  "well_formed_record loads rec items \<longleftrightarrow>
     startswith rec [CHR ''{'', dquote]
     \<and> contains sentinel (take 5000 rec)
     \<and> brace_scan rec 0 0 False False = Some (length rec)
     \<and> loads rec = Inr (JObj items)"

section \<open>export\_userscripts\<close>

text \<open>
  The output directory: the script files by name, each with its content, and
  \<^verbatim>\<open>manifest.json\<close>. A script file is named \<^verbatim>\<open><slug>.user.js\<close>, which is never the
  manifest's name, so the two are separate fields. Of the manifest's content the
  program sees only what \<^verbatim>\<open>json.load\<close> makes of it: the content is either text the
  decoder rejects (\<open>NotJson\<close>) or a document (\<open>Json\<close>), and \<^verbatim>\<open>json.dump\<close> stores a
  document. The directory holds regular, readable files; input and output errors of
  the operating system are outside the model.
\<close>

datatype manifest_content = NotJson | Json json

record outdir =
  files :: "string \<rightharpoonup> string"
  manifest_file :: "manifest_content option"

definition carriage_return :: char where
  "carriage_return = CHR 0x0D"

text \<open>
  \<^verbatim>\<open>open(filepath, 'r')\<close> and \<^verbatim>\<open>f.read()\<close>: the file is opened in text mode, where
  Python turns every \<^verbatim>\<open>\r\n\<close> and every remaining \<^verbatim>\<open>\r\<close> into \<^verbatim>\<open>\n\<close>. Writing
  (\<^verbatim>\<open>open(filepath, 'w')\<close>, on the platform the program is written for) stores the
  text as it is.
\<close>

fun read_text :: "string \<Rightarrow> string" where
  "read_text [] = []"
| "read_text [c] = [if c = carriage_return then newline else c]"
| "read_text (c # d # cs) =
     (if c = carriage_return
      then (if d = newline then newline # read_text cs else newline # read_text (d # cs))
      else c # read_text (d # cs))"

text \<open>\<^verbatim>\<open>metadata.get('name', uuid)\<close>\<close>

definition script_name :: "string \<Rightarrow> string \<Rightarrow> json" where
  "script_name uuid script =
     (case map_of (parse_userscript_metadata script) ''name'' of None \<Rightarrow> JStr uuid | Some v \<Rightarrow> v)"

text \<open>
  \<^verbatim>\<open>slugify(name)\<close> and the f-string: \<^verbatim>\<open>name.lower()\<close> exists for a string only, a
  list (a repeated \<^verbatim>\<open>@name\<close>) raises \<^verbatim>\<open>AttributeError\<close>.
\<close>

definition script_filename :: "string \<Rightarrow> string \<Rightarrow> fault + string" where
  "script_filename uuid script =
     (case script_name uuid script of
        JStr name \<Rightarrow> Inr (slugify name @ ''.user.js'')
      | _ \<Rightarrow> Inl AttributeError)"

definition export_entry :: "string \<Rightarrow> string \<Rightarrow> string \<Rightarrow> string \<Rightarrow> json" where
  "export_entry uuid script filename synced_at =
     JObj [(''uuid'', JStr uuid),
           (''name'', script_name uuid script),
           (''filename'', JStr filename),
           (''metadata'', JObj (parse_userscript_metadata script)),
           (''synced_at'', JStr synced_at)]"

text \<open>
  The variables of the loop over \<^verbatim>\<open>scripts.items()\<close>: the files, \<^verbatim>\<open>exported\<close>,
  \<^verbatim>\<open>added\<close>, \<^verbatim>\<open>updated\<close>, and the number of times the clock has been read. The
  clock is a function: \<open>now k\<close> is what the \<open>k\<close>-th call of
  \<^verbatim>\<open>datetime.now().isoformat()\<close> in this run returns.
\<close>

record export_state =
  st_files :: "string \<rightharpoonup> string"
  exported :: "json list"
  added :: nat
  updated :: nat
  clock :: nat

definition export_one ::
  "(nat \<Rightarrow> string) \<Rightarrow> string \<times> string \<Rightarrow> export_state \<Rightarrow> fault + export_state" where
  "export_one now item st =
     (case item of (uuid, script) \<Rightarrow>
        (case script_filename uuid script of
           Inl e \<Rightarrow> Inl e
         | Inr filename \<Rightarrow>
             (let is_new = (st_files st filename = None);
                  content_changed =
                    (case st_files st filename of
                       None \<Rightarrow> False
                     | Some existing_content \<Rightarrow> read_text existing_content \<noteq> script)
              in Inr \<lparr> st_files =
                          (if is_new \<or> content_changed then (st_files st)(filename \<mapsto> script)
                           else st_files st),
                        exported =
                          exported st @ [export_entry uuid script filename (now (clock st))],
                        added = (if is_new then added st + 1 else added st),
                        updated =
                          (if \<not> is_new \<and> content_changed then updated st + 1 else updated st),
                        clock = clock st + 1 \<rparr>)))"

text \<open>The loop; an exception leaves it with what the earlier iterations wrote.\<close>

fun export_loop ::
  "(nat \<Rightarrow> string) \<Rightarrow> (string \<times> string) list \<Rightarrow> export_state \<Rightarrow> fault option \<times> export_state" where
  "export_loop now [] st = (None, st)"
| "export_loop now (item # items) st =
     (case export_one now item st of
        Inl e \<Rightarrow> (Some e, st)
      | Inr st' \<Rightarrow> export_loop now items st')"

text \<open>
  The manifest branch works on whatever document the file held. \<^verbatim>\<open>s['uuid']\<close>
  needs a dictionary with that key; a member of a set must be hashable; \<^verbatim>\<open>for s in x\<close>
  needs a list, a string (its characters) or a dictionary (its keys).
\<close>

definition subscript_uuid :: "json \<Rightarrow> fault + json" where
  "subscript_uuid s =
     (case s of
        JObj kvs \<Rightarrow> (case map_of kvs ''uuid'' of None \<Rightarrow> Inl KeyError | Some v \<Rightarrow> Inr v)
      | _ \<Rightarrow> Inl TypeError)"

definition hashable :: "json \<Rightarrow> bool" where
  "hashable v = (case v of JArr _ \<Rightarrow> False | JObj _ \<Rightarrow> False | _ \<Rightarrow> True)"

definition iterate :: "json \<Rightarrow> fault + json list" where
  "iterate x =
     (case x of
        JArr xs \<Rightarrow> Inr xs
      | JStr s \<Rightarrow> Inr (map (\<lambda>c. JStr [c]) s)
      | JObj kvs \<Rightarrow> Inr (map (\<lambda>kv. JStr (fst kv)) kvs)
      | _ \<Rightarrow> Inl TypeError)"

text \<open>\<^verbatim>\<open>manifest.get('scripts', [])\<close>\<close>

definition get_scripts :: "json \<Rightarrow> fault + json" where
  "get_scripts manifest =
     (case manifest of
        JObj kvs \<Rightarrow> Inr (case map_of kvs ''scripts'' of None \<Rightarrow> JArr [] | Some v \<Rightarrow> v)
      | _ \<Rightarrow> Inl AttributeError)"

text \<open>\<^verbatim>\<open>{s['uuid'] for s in ...}\<close>, its members in the order they are met.\<close>

fun uuid_set :: "json list \<Rightarrow> fault + json list" where
  "uuid_set [] = Inr []"
| "uuid_set (s # ss) =
     (case subscript_uuid s of
        Inl e \<Rightarrow> Inl e
      | Inr v \<Rightarrow>
          if \<not> hashable v then Inl TypeError
          else (case uuid_set ss of Inl e \<Rightarrow> Inl e | Inr vs \<Rightarrow> Inr (v # vs)))"

text \<open>
  \<^verbatim>\<open>[s if s['uuid'] != exp['uuid'] else exp for s in manifest['scripts']]\<close>. The
  right-hand side of the comparison is a string, so Python's \<^verbatim>\<open>!=\<close> is inequality
  of values.
\<close>

fun replace_entry :: "json \<Rightarrow> json \<Rightarrow> json list \<Rightarrow> fault + json list" where
  "replace_entry u exp [] = Inr []"
| "replace_entry u exp (s # ss) =
     (case subscript_uuid s of
        Inl e \<Rightarrow> Inl e
      | Inr v \<Rightarrow>
          (case replace_entry u exp ss of
             Inl e \<Rightarrow> Inl e
           | Inr rest \<Rightarrow> Inr ((if v \<noteq> u then s else exp) # rest)))"

text \<open>The body of \<^verbatim>\<open>for exp in exported\<close>; \<open>manifest\<close> is the dictionary's pairs.\<close>

definition merge_entry ::
  "json list \<Rightarrow> (string \<times> json) list \<Rightarrow> json \<Rightarrow> fault + (string \<times> json) list" where
  "merge_entry existing_uuids manifest exp =
     (case subscript_uuid exp of
        Inl e \<Rightarrow> Inl e
      | Inr u \<Rightarrow>
          if u \<in> set existing_uuids then
            (case map_of manifest ''scripts'' of
               None \<Rightarrow> Inl KeyError
             | Some x \<Rightarrow>
                 (case iterate x of
                    Inl e \<Rightarrow> Inl e
                  | Inr ss \<Rightarrow>
                      (case replace_entry u exp ss of
                         Inl e \<Rightarrow> Inl e
                       | Inr ss' \<Rightarrow> Inr (AList.update ''scripts'' (JArr ss') manifest))))
          else
            (case map_of manifest ''scripts'' of
               None \<Rightarrow> Inl KeyError
             | Some (JArr ss) \<Rightarrow> Inr (AList.update ''scripts'' (JArr (ss @ [exp])) manifest)
             | Some _ \<Rightarrow> Inl AttributeError))"

fun merge_entries ::
  "json list \<Rightarrow> (string \<times> json) list \<Rightarrow> json list \<Rightarrow> fault + (string \<times> json) list" where
  "merge_entries existing_uuids manifest [] = Inr manifest"
| "merge_entries existing_uuids manifest (exp # exps) =
     (case merge_entry existing_uuids manifest exp of
        Inl e \<Rightarrow> Inl e
      | Inr manifest' \<Rightarrow> merge_entries existing_uuids manifest' exps)"

text \<open>
  The manifest branch from the default dictionary to the value handed to
  \<^verbatim>\<open>json.dump\<close>. \<open>k\<close> is the number of clock readings before the branch. A missing
  file and a file the decoder rejects both leave the default in place.
\<close>

definition load_manifest :: "(nat \<Rightarrow> string) \<Rightarrow> nat \<Rightarrow> manifest_content option \<Rightarrow> json" where
  "load_manifest now k mf =
     (case mf of
        Some (Json doc) \<Rightarrow> doc
      | _ \<Rightarrow> JObj [(''scripts'', JArr []), (''last_updated'', JStr (now k))])"

definition update_manifest ::
  "(nat \<Rightarrow> string) \<Rightarrow> nat \<Rightarrow> manifest_content option \<Rightarrow> json list \<Rightarrow> fault + json" where
  "update_manifest now k mf exps =
     (let manifest = load_manifest now k mf in
      case get_scripts manifest of
        Inl e \<Rightarrow> Inl e
      | Inr x \<Rightarrow>
          (case iterate x of
             Inl e \<Rightarrow> Inl e
           | Inr ss \<Rightarrow>
               (case uuid_set ss of
                  Inl e \<Rightarrow> Inl e
                | Inr existing_uuids \<Rightarrow>
                    (case manifest of
                       JObj kvs \<Rightarrow>
                         (case merge_entries existing_uuids kvs exps of
                            Inl e \<Rightarrow> Inl e
                          | Inr kvs' \<Rightarrow>
                              Inr (JObj (AList.update ''last_updated'' (JStr (now (k + 1))) kvs')))
                     | _ \<Rightarrow> Inl AttributeError))))"

record report =
  exported_list :: "json list"
  added_count :: nat
  updated_count :: nat
  removed_count :: nat

text \<open>
  The function: the outcome (the returned tuple or the exception that left it) and
  the directory afterwards.
\<close>

definition export_userscripts ::
  "(nat \<Rightarrow> string) \<Rightarrow> (string \<times> string) list \<Rightarrow> outdir \<Rightarrow> bool \<Rightarrow> (fault + report) \<times> outdir" where
  "export_userscripts now scripts output_dir include_manifest =
     (case export_loop now scripts
             \<lparr> st_files = files output_dir, exported = [], added = 0, updated = 0, clock = 0 \<rparr> of
        (Some e, st) \<Rightarrow> (Inl e, output_dir \<lparr> files := st_files st \<rparr>)
      | (None, st) \<Rightarrow>
          (let removed = 0;
               has_changes = (added st > 0 \<or> updated st > 0 \<or> removed > 0);
               result = \<lparr> exported_list = exported st, added_count = added st,
                          updated_count = updated st, removed_count = removed \<rparr>
           in if include_manifest \<and> has_changes then
                (case update_manifest now (clock st) (manifest_file output_dir) (exported st) of
                   Inl e \<Rightarrow> (Inl e, output_dir \<lparr> files := st_files st \<rparr>)
                 | Inr manifest \<Rightarrow>
                     (Inr result,
                      output_dir \<lparr> files := st_files st, manifest_file := Some (Json manifest) \<rparr>))
              else (Inr result, output_dir \<lparr> files := st_files st \<rparr>)))"

section \<open>The reconciler in the words of the specification\<close>

text \<open>
  A directory is \<open>settled\<close> for an input when every script's file exists and reads
  as the script's text. An input is \<open>collision_free\<close> when scripts exported under the
  same file name have the same text, and \<open>reads_back\<close> when reading a file that
  holds a script's text returns that text (the text has no carriage return).
\<close>

definition settled :: "(string \<times> string) list \<Rightarrow> (string \<rightharpoonup> string) \<Rightarrow> bool" where
  "settled scripts fs \<longleftrightarrow>
     (\<forall>(u, s) \<in> set scripts. \<exists>f e. script_filename u s = Inr f \<and> fs f = Some e \<and> read_text e = s)"

definition collision_free :: "(string \<times> string) list \<Rightarrow> bool" where
  "collision_free scripts \<longleftrightarrow>
     (\<forall>(u, s) \<in> set scripts. \<forall>(u', s') \<in> set scripts.
        script_filename u s = script_filename u' s' \<longrightarrow> s = s')"

definition reads_back :: "(string \<times> string) list \<Rightarrow> bool" where
  "reads_back scripts \<longleftrightarrow> (\<forall>(u, s) \<in> set scripts. read_text s = s)"

text \<open>
  The manifest's rows. \<open>row_uuid\<close> is a row's id where it has one. A manifest is
  well formed when its rows are dictionaries with a hashable \<^verbatim>\<open>uuid\<close>.
  \<open>merge_rows\<close> is one replace-or-append step on the rows; \<open>merged_rows\<close> is the
  merge as the specification states it: every old row stays at its position,
  replaced by the new entry of its id where there is one, and the entries with new
  ids follow at the end.
\<close>

definition row_uuid :: "json \<Rightarrow> json option" where
  "row_uuid row = (case subscript_uuid row of Inl _ \<Rightarrow> None | Inr v \<Rightarrow> Some v)"

definition well_formed_rows :: "json list \<Rightarrow> bool" where
  "well_formed_rows rows \<longleftrightarrow> (\<forall>row \<in> set rows. \<exists>v. subscript_uuid row = Inr v \<and> hashable v)"

definition replace_rows :: "json \<Rightarrow> json \<Rightarrow> json list \<Rightarrow> json list" where
  "replace_rows u exp rows = map (\<lambda>row. if row_uuid row = Some u then exp else row) rows"

definition merge_rows :: "json list \<Rightarrow> json list \<Rightarrow> json \<Rightarrow> json list" where
  "merge_rows existing_uuids rows exp =
     (case row_uuid exp of
        None \<Rightarrow> rows
      | Some u \<Rightarrow> if u \<in> set existing_uuids then replace_rows u exp rows else rows @ [exp])"

definition pick_row :: "json list \<Rightarrow> json \<Rightarrow> json" where
  "pick_row exps row =
     (case List.find (\<lambda>e. row_uuid e = row_uuid row) exps of None \<Rightarrow> row | Some e \<Rightarrow> e)"

definition merged_rows :: "json list \<Rightarrow> json list \<Rightarrow> json list" where
  "merged_rows rows exps =
     map (pick_row exps) rows @ filter (\<lambda>e. row_uuid e \<notin> set (map row_uuid rows)) exps"

text \<open>
  The variables of the loop before its first iteration, and the entry the loop
  makes for a script at the \<open>k\<close>-th reading of the clock (for a script whose name
  is a string, the only ones a completed loop has met).
\<close>

definition start_state :: "outdir \<Rightarrow> export_state" where
  "start_state output_dir =
     \<lparr> st_files = files output_dir, exported = [], added = 0, updated = 0, clock = 0 \<rparr>"

definition entry_of :: "(nat \<Rightarrow> string) \<Rightarrow> nat \<Rightarrow> string \<times> string \<Rightarrow> json" where
  "entry_of now k item =
     (case item of (uuid, script) \<Rightarrow>
        export_entry uuid script
          (case script_filename uuid script of Inr f \<Rightarrow> f | Inl _ \<Rightarrow> []) (now k))"

text \<open>A clock for concrete runs: the \<open>k\<close>-th reading ends in the digit \<open>k mod 10\<close>.\<close>

definition sample_clock :: "nat \<Rightarrow> string" where
  "sample_clock k = ''2026-01-01T00:00:0'' @ [char_of (48 + k mod 10)]"

definition empty_dir :: outdir where
  "empty_dir = \<lparr> files = Map.empty, manifest_file = None \<rparr>"

text \<open>A script with the header name \<^verbatim>\<open>Foo\<close> and the given body, for concrete runs.\<close>

definition foo_script :: "string \<Rightarrow> string" where
  "foo_script body =
     ''// ==UserScript==\<newline>// @name Foo\<newline>// ==/UserScript==\<newline>'' @ body"

section \<open>Properties of slugify\<close>

lemma split_on_not_Nil: "split_on P s \<noteq> []"
  by (induction s) (auto split: list.splits)

lemma rstrip_Cons:
  "rstrip P (c # s) = (if P c \<and> rstrip P s = [] then [] else c # rstrip P s)"
  by (auto simp: rstrip_def dropWhile_append dropWhile_eq_Nil_conv)

lemma rstrip_Nil: "rstrip P [] = []"
  by (simp add: rstrip_def)

lemma join_nonempty_words:
  "ws \<noteq> [] \<Longrightarrow> \<forall>w \<in> set ws. w \<noteq> [] \<Longrightarrow> join sep ws \<noteq> []"
  by (induction sep ws rule: join.induct) auto

lemma join_Cons:
  "join sep (w # ws) = w @ (if ws = [] then [] else sep @ join sep ws)"
  by (cases ws) auto

lemma sub_seps_True_no_hyphen:
  "lstrip is_hyphen (sub_seps True s) = sub_seps True s"
proof (induction s)
  case Nil
  show ?case by (simp add: lstrip_def)
next
  case (Cons c cs)
  show ?case
  proof (cases "is_sep c")
    case True
    with Cons show ?thesis by simp
  next
    case False
    then have "\<not> is_hyphen c" by (simp add: is_sep_def is_hyphen_def)
    with False show ?thesis by (simp add: lstrip_def)
  qed
qed

lemma join_nonempty_Nil_iff:
  "join sep (nonempty_words ws) = [] \<longleftrightarrow> nonempty_words ws = []"
proof
  assume e: "join sep (nonempty_words ws) = []"
  show "nonempty_words ws = []"
  proof (rule ccontr)
    assume ne: "nonempty_words ws \<noteq> []"
    have "\<forall>w \<in> set (nonempty_words ws). w \<noteq> []" by simp
    from join_nonempty_words [OF ne this] e show False by simp
  qed
next
  assume "nonempty_words ws = []"
  then show "join sep (nonempty_words ws) = []" by simp
qed

lemma lstrip_Cons: "lstrip P (c # s) = (if P c then lstrip P s else c # s)"
  by (simp add: lstrip_def)

lemma lstrip_sub_seps:
  "lstrip is_hyphen (sub_seps run s) = sub_seps True s"
proof (cases s)
  case Nil
  then show ?thesis by (simp add: lstrip_def)
next
  case (Cons c cs)
  have h: "is_hyphen (CHR ''-'')" by (simp add: is_hyphen_def)
  show ?thesis
  proof (cases "is_sep c")
    case True
    with Cons h show ?thesis
      by (simp add: lstrip_Cons sub_seps_True_no_hyphen)
  next
    case False
    then have "\<not> is_hyphen c" by (simp add: is_sep_def is_hyphen_def)
    with False Cons show ?thesis
      by (simp add: lstrip_Cons)
  qed
qed

lemma rstrip_sub_seps:
  "rstrip is_hyphen (sub_seps True s) = join ''-'' (nonempty_words (split_on is_sep s)) \<and>
   rstrip is_hyphen (sub_seps False s) =
     (case split_on is_sep s of [] \<Rightarrow> [] | w # ws \<Rightarrow>
        w @ (if nonempty_words ws = [] then [] else ''-'' @ join ''-'' (nonempty_words ws)))"
proof (induction s)
  case Nil
  show ?case by (simp add: rstrip_Nil)
next
  case (Cons c cs)
  obtain w ws where sp: "split_on is_sep cs = w # ws"
    using split_on_not_Nil [of is_sep cs] by (cases "split_on is_sep cs") auto
  show ?case
  proof (cases "is_sep c")
    case True
    have a: "rstrip is_hyphen (sub_seps True (c # cs)) =
       join ''-'' (nonempty_words (split_on is_sep (c # cs)))"
      using True Cons.IH by simp
    have b: "rstrip is_hyphen (sub_seps False (c # cs)) =
     (case split_on is_sep (c # cs) of [] \<Rightarrow> [] | w # ws \<Rightarrow>
        w @ (if nonempty_words ws = [] then [] else ''-'' @ join ''-'' (nonempty_words ws)))"
    proof -
      have h: "is_hyphen (CHR ''-'')" by (simp add: is_hyphen_def)
      have r: "rstrip is_hyphen (sub_seps True cs) = join ''-'' (nonempty_words (split_on is_sep cs))"
        by (rule conjunct1 [OF Cons.IH])
      show ?thesis
        using True h join_nonempty_Nil_iff [of "''-''" "split_on is_sep cs"]
        by (simp add: rstrip_Cons r)
    qed
    show ?thesis by (rule conjI [OF a b])
  next
    case False
    then have nh: "\<not> is_hyphen c" by (simp add: is_sep_def is_hyphen_def)
    have a: "rstrip is_hyphen (sub_seps True (c # cs)) =
       join ''-'' (nonempty_words (split_on is_sep (c # cs)))"
      using False nh Cons.IH sp by (simp add: rstrip_Cons join_Cons)
    have b: "rstrip is_hyphen (sub_seps False (c # cs)) =
     (case split_on is_sep (c # cs) of [] \<Rightarrow> [] | w # ws \<Rightarrow>
        w @ (if nonempty_words ws = [] then [] else ''-'' @ join ''-'' (nonempty_words ws)))"
      using False nh Cons.IH sp by (simp add: rstrip_Cons)
    show ?thesis by (rule conjI [OF a b])
  qed
qed

lemma strip_sub_seps:
  "strip is_hyphen (sub_seps False s) = join ''-'' (nonempty_words (split_on is_sep s))"
  using rstrip_sub_seps [of s] by (simp add: strip_def lstrip_sub_seps)

text \<open>
  Claim C8. \<^verbatim>\<open>slugify("My Script! v2.0")\<close> is \<^verbatim>\<open>"my-script-v20"\<close>, and for every
  text the slug is what the specification describes: the text in lower case, the
  characters outside word/space/hyphen removed, every run of whitespace and hyphens
  turned into one hyphen and no hyphen left at either end, that is, the pieces
  between the separator runs joined by single hyphens.
\<close>

theorem slugify_meets_spec:
  \<open>slugify ''My Script! v2.0'' = ''my-script-v20'' \<and> slugify text = slugify_spec text\<close>
proof
  show \<open>slugify ''My Script! v2.0'' = ''my-script-v20''\<close>
    by code_simp
  show "slugify text = slugify_spec text"
    by (simp add: slugify_def slugify_spec_def slug_words_def strip_sub_seps)
qed

theorem slugify_meets_spec_witness:
  \<open>slugify ''--Tab\<newline> and  - Hyphen_1 '' = ''tab-and-hyphen_1''
   \<and> slugify_spec ''--Tab\<newline> and  - Hyphen_1 '' = ''tab-and-hyphen_1''\<close>
proof -
  have \<open>slugify ''--Tab\<newline> and  - Hyphen_1 '' = ''tab-and-hyphen_1''\<close>
    by code_simp
  with slugify_meets_spec [of \<open>''--Tab\<newline> and  - Hyphen_1 ''\<close>] show ?thesis
    by simp
qed

section \<open>Properties of the scanner\<close>


lemma scan_starts_Advance:
  "scan_body loads buf idx found = Advance start idx' found' \<Longrightarrow>
     scan_starts loads buf idx found = start # scan_starts loads buf idx' found'"
  by (subst scan_starts.simps) simp

lemma scan_starts_end:
  "scan_body loads buf idx found = Stop \<or> (\<exists>e. scan_body loads buf idx found = Abort e) \<Longrightarrow>
     scan_starts loads buf idx found = []"
  by (subst scan_starts.simps) auto

lemma scan_starts_bounds:
  "s \<in> set (scan_starts loads buf idx found) \<Longrightarrow> idx \<le> s \<and> s < length buf"
proof (induction loads buf idx found rule: scan_starts.induct)
  case (1 loads buf idx found)
  show ?case
  proof (cases "scan_body loads buf idx found")
    case Stop
    with "1.prems" show ?thesis by (simp add: scan_starts_end)
  next
    case (Abort e)
    with "1.prems" show ?thesis by (simp add: scan_starts_end)
  next
    case (Advance start idx' found')
    from scan_body_advance [OF Advance]
    have b: "idx \<le> start" "start < idx'" "start < length buf" by auto
    from "1.prems" Advance have "s = start \<or> s \<in> set (scan_starts loads buf idx' found')"
      by (simp add: scan_starts_Advance)
    then show ?thesis
    proof
      assume "s = start"
      with b show ?thesis by simp
    next
      assume "s \<in> set (scan_starts loads buf idx' found')"
      from "1.IH" [OF Advance this] b show ?thesis by simp
    qed
  qed
qed

lemma scan_starts_increasing:
  "sorted_wrt (<) (scan_starts loads buf idx found)"
proof (induction loads buf idx found rule: scan_starts.induct)
  case (1 loads buf idx found)
  show ?case
  proof (cases "scan_body loads buf idx found")
    case Stop
    then show ?thesis by (simp add: scan_starts_end)
  next
    case (Abort e)
    then show ?thesis by (simp add: scan_starts_end)
  next
    case (Advance start idx' found')
    from scan_body_advance [OF Advance] have b: "start < idx'" by simp
    have "\<forall>s \<in> set (scan_starts loads buf idx' found'). start < s"
    proof
      fix s assume "s \<in> set (scan_starts loads buf idx' found')"
      from scan_starts_bounds [OF this] b show "start < s" by simp
    qed
    with "1.IH" [OF Advance] Advance show ?thesis
      by (simp add: scan_starts_Advance)
  qed
qed

lemma scan_starts_length:
  "length (scan_starts loads buf idx found) \<le> length buf - idx"
proof (induction loads buf idx found rule: scan_starts.induct)
  case (1 loads buf idx found)
  show ?case
  proof (cases "scan_body loads buf idx found")
    case Stop
    then show ?thesis by (simp add: scan_starts_end)
  next
    case (Abort e)
    then show ?thesis by (simp add: scan_starts_end)
  next
    case (Advance start idx' found')
    from scan_body_advance [OF Advance]
    have b: "idx \<le> start" "start < idx'" "start < length buf" by auto
    from "1.IH" [OF Advance] have "length (scan_starts loads buf idx' found') \<le> length buf - idx'" .
    with b Advance show ?thesis
      by (simp add: scan_starts_Advance)
  qed
qed

text \<open>The loop and the list of offsets run through the same iterations.\<close>

lemma scan_loop_Advance:
  "scan_body loads buf idx found = Advance start idx' found' \<Longrightarrow>
     scan_loop loads buf idx found = scan_loop loads buf idx' found'"
  by (subst scan_loop.simps) simp

lemma scan_loop_Stop:
  "scan_body loads buf idx found = Stop \<Longrightarrow> scan_loop loads buf idx found = Inr found"
  by (subst scan_loop.simps) simp

text \<open>
  Claim C4. For every buffer the scanner terminates (\<open>scan_loop\<close> is a total
  function, its termination proved above from the same fact), and its search index
  moves strictly forward: an iteration that does not stop, whatever became of its
  candidate, looks at an offset \<open>start\<close> at or after \<open>idx\<close> and inside the buffer and
  continues with an index beyond it. So the offsets looked at are strictly
  increasing, none is looked at twice, and there are at most as many iterations as
  characters between \<open>idx\<close> and the end of the buffer.
\<close>

theorem scanner_forward_progress:
  "(\<forall>start idx' found'.
      scan_body loads buf idx found = Advance start idx' found' \<longrightarrow>
        idx \<le> start \<and> start < idx' \<and> start < length buf
        \<and> scan_loop loads buf idx found = scan_loop loads buf idx' found'
        \<and> scan_starts loads buf idx found = start # scan_starts loads buf idx' found')
   \<and> sorted_wrt (<) (scan_starts loads buf idx found)
   \<and> distinct (scan_starts loads buf idx found)
   \<and> length (scan_starts loads buf idx found) \<le> length buf - idx"
proof (intro conjI allI impI)
  fix start idx' found'
  assume a: "scan_body loads buf idx found = Advance start idx' found'"
  from scan_body_advance [OF a]
  show "idx \<le> start" "start < idx'" "start < length buf" by auto
  from a show "scan_loop loads buf idx found = scan_loop loads buf idx' found'"
    by (rule scan_loop_Advance)
  from a show "scan_starts loads buf idx found = start # scan_starts loads buf idx' found'"
    by (rule scan_starts_Advance)
next
  show "sorted_wrt (<) (scan_starts loads buf idx found)"
    by (rule scan_starts_increasing)
  then show "distinct (scan_starts loads buf idx found)"
    by (simp add: strict_sorted_iff)
  show "length (scan_starts loads buf idx found) \<le> length buf - idx"
    by (rule scan_starts_length)
qed

theorem scanner_forward_progress_witness:
  \<open>scan_body json_loads ''{"a":{"i":"==UserScript=="}'' 0 [] = Advance 0 1 []
   \<and> scan_starts json_loads ''{"a":{"i":"==UserScript=="}'' 0 [] =
       0 # scan_starts json_loads ''{"a":{"i":"==UserScript=="}'' 1 []
   \<and> sorted_wrt (<) (scan_starts json_loads ''{"a":{"i":"==UserScript=="}'' 0 [])\<close>
proof -
  have a: \<open>scan_body json_loads ''{"a":{"i":"==UserScript=="}'' 0 [] = Advance 0 1 []\<close>
    by code_simp
  with scanner_forward_progress [of json_loads \<open>''{"a":{"i":"==UserScript=="}''\<close> 0 "[]"]
  show ?thesis by blast
qed

text \<open>
  No exception leaves the scanner when the decoder raises nothing but
  \<^verbatim>\<open>json.JSONDecodeError\<close>.
\<close>

lemma scanner_returns:
  assumes "\<forall>s e. loads s = Inl e \<longrightarrow> e = JSONDecodeError"
  shows "\<exists>result. scan_loop loads buf idx found = Inr result"
  using assms
proof (induction loads buf idx found rule: scan_loop.induct)
  case (1 loads buf idx found)
  show ?case
  proof (cases "scan_body loads buf idx found")
    case Stop
    then show ?thesis by (simp add: scan_loop_Stop)
  next
    case (Advance start idx' found')
    from "1.IH" [OF Advance "1.prems"] scan_loop_Advance [OF Advance] show ?thesis by simp
  next
    case (Abort e)
    then obtain s where "loads s = Inl e" "e \<noteq> JSONDecodeError"
      by (auto simp: scan_body_def Let_def split: option.splits if_splits sum.splits fault.splits)
    with "1.prems" show ?thesis by blast
  qed
qed

section \<open>Properties of the metadata parser\<close>

lemma first_seen_snoc:
  "first_seen (xs @ [k]) = (if k \<in> set xs then first_seen xs else first_seen xs @ [k])"
  by (simp add: first_seen_def)

lemma values_of_snoc:
  "values_of key (es @ [(k, v)]) = (if k = key then values_of key es @ [v] else values_of key es)"
  by (simp add: values_of_def)

lemma metadata_value_snoc:
  "metadata_value (vs @ [v]) =
     (case metadata_value vs of
        None \<Rightarrow> Some (JStr v)
      | Some (JArr ws) \<Rightarrow> Some (JArr (ws @ [JStr v]))
      | Some old \<Rightarrow> Some (JArr [old, JStr v]))"
proof (cases vs)
  case Nil
  then show ?thesis by (simp add: metadata_value_def)
next
  case (Cons a as)
  then show ?thesis by (cases as) (simp_all add: metadata_value_def)
qed

lemma map_of_update:
  "map_of (AList.update k v al) k' = (if k' = k then Some v else map_of al k')"
  by (simp add: update_conv')

lemma add_entry_lookup:
  assumes "map_of md k = metadata_value (values_of k es)"
  shows "map_of (add_entry md (k, v)) k = metadata_value (values_of k (es @ [(k, v)]))"
proof (cases "map_of md k")
  case None
  with assms have "metadata_value (values_of k es) = None" by simp
  with None show ?thesis
    by (simp add: add_entry_def map_of_update values_of_snoc metadata_value_snoc)
next
  case (Some old)
  with assms have "metadata_value (values_of k es) = Some old" by simp
  with Some show ?thesis
    by (cases old) (simp_all add: add_entry_def map_of_update values_of_snoc metadata_value_snoc)
qed

lemma add_entry_other:
  "key \<noteq> k \<Longrightarrow> map_of (add_entry md (k, v)) key = map_of md key"
  by (auto simp: add_entry_def map_of_update split: option.splits json.splits)

lemma add_entry_keys:
  "map fst (add_entry md (k, v)) =
     (if k \<in> set (map fst md) then map fst md else map fst md @ [k])"
  by (auto simp: add_entry_def update_keys split: option.splits json.splits)

lemma set_first_seen: "set (first_seen xs) = set xs"
  by (simp add: first_seen_def)

lemma md_inv_step:
  assumes "md_inv md es"
  shows "md_inv (add_entry md (k, v)) (es @ [(k, v)])"
proof -
  from assms have l: "\<And>key. map_of md key = metadata_value (values_of key es)"
    and o: "map fst md = first_seen (map fst es)"
    by (auto simp: md_inv_def)
  have "map_of (add_entry md (k, v)) key = metadata_value (values_of key (es @ [(k, v)]))" for key
  proof (cases "key = k")
    case True
    with add_entry_lookup [OF l [of k], of v] show ?thesis by simp
  next
    case False
    with l [of key] show ?thesis by (simp add: add_entry_other values_of_snoc)
  qed
  moreover have "map fst (add_entry md (k, v)) = first_seen (map fst (es @ [(k, v)]))"
    using o by (simp add: add_entry_keys first_seen_snoc set_first_seen)
  ultimately show ?thesis by (simp add: md_inv_def)
qed

lemma md_inv_foldl:
  "md_inv md es \<Longrightarrow> md_inv (foldl add_entry md new) (es @ new)"
proof (induction new arbitrary: md es)
  case Nil
  then show ?case by simp
next
  case (Cons kv new)
  obtain k v where kv: "kv = (k, v)" by (cases kv)
  from md_inv_step [OF Cons.prems, of k v] have "md_inv (add_entry md kv) (es @ [kv])"
    by (simp add: kv)
  from Cons.IH [OF this] show ?case by simp
qed

lemma foldl_header_line:
  "foldl header_line md ls = foldl add_entry md (List.map_filter header_entry ls)"
  by (induction ls arbitrary: md) (auto simp: header_line_def map_filter_simps split: option.splits)

lemma md_inv_empty: "md_inv [] []"
  by (simp add: md_inv_def values_of_def metadata_value_def first_seen_def)

lemma parse_header_inv:
  "md_inv (foldl header_line [] (split_on (\<lambda>c. c = newline) header)) (header_entries header)"
  using md_inv_foldl [OF md_inv_empty, of "header_entries header"]
  by (simp add: foldl_header_line header_entries_def)

lemma startswith_decomp: "startswith s p \<Longrightarrow> s = p @ drop (length p) s"
  by (induction s p rule: startswith.induct) auto

lemma lazy_group_None: "lazy_group r = None \<longleftrightarrow> (\<forall>k. \<not> match_end (drop k r))"
proof (induction r)
  case Nil
  show ?case by (simp add: match_end_def)
next
  case (Cons c cs)
  have "(\<forall>k. \<not> match_end (drop k (c # cs))) \<longleftrightarrow>
          \<not> match_end (c # cs) \<and> (\<forall>k. \<not> match_end (drop k cs))"
  proof
    assume a: "\<forall>k. \<not> match_end (drop k (c # cs))"
    from a [rule_format, of 0] have "\<not> match_end (c # cs)" by simp
    moreover have "\<not> match_end (drop k cs)" for k
      using a [rule_format, of "Suc k"] by simp
    ultimately show "\<not> match_end (c # cs) \<and> (\<forall>k. \<not> match_end (drop k cs))" by simp
  next
    assume a: "\<not> match_end (c # cs) \<and> (\<forall>k. \<not> match_end (drop k cs))"
    show "\<forall>k. \<not> match_end (drop k (c # cs))"
    proof
      fix k show "\<not> match_end (drop k (c # cs))"
        using a by (cases k) simp_all
    qed
  qed
  with Cons.IH show ?case by simp
qed

text \<open>What a match of the begin pattern says about the text.\<close>

lemma prefix_spaces_prefix:
  assumes "startswith s p" and "startswith (dropWhile P (drop (length p) s)) q"
  shows "s = p @ takeWhile P (drop (length p) s) @ q
               @ drop (length q) (dropWhile P (drop (length p) s))"
  using startswith_decomp [OF assms(1)] startswith_decomp [OF assms(2)]
    takeWhile_dropWhile_id [of P "drop (length p) s"]
  by metis

lemma match_begin_decomp:
  assumes "match_begin s = Some r"
  shows "\<exists>ws. s = ''//'' @ ws @ ''==UserScript=='' @ r \<and> (\<forall>c \<in> set ws. is_space c)"
proof -
  have l2: "length ''//'' = 2" and l14: "length ''==UserScript=='' = 14" by simp_all
  from assms have a: "startswith s ''//''"
    and b: "startswith (dropWhile is_space (drop 2 s)) ''==UserScript==''"
    and r: "r = drop 14 (dropWhile is_space (drop 2 s))"
    by (auto simp: match_begin_def Let_def split: if_splits)
  from b have b': "startswith (dropWhile is_space (drop (length ''//'') s)) ''==UserScript==''"
    by (simp only: l2)
  from r have r': "r = drop (length ''==UserScript=='')
                          (dropWhile is_space (drop (length ''//'') s))"
    by (simp only: l2 l14)
  from prefix_spaces_prefix [OF a b']
  have "s = ''//'' @ takeWhile is_space (drop (length ''//'') s) @ ''==UserScript=='' @ r"
    by (simp only: r')
  moreover have "\<forall>c \<in> set (takeWhile is_space (drop (length ''//'') s)). is_space c"
    by (auto dest: set_takeWhileD)
  ultimately show ?thesis by blast
qed

lemma match_end_slashes: "match_end t \<Longrightarrow> startswith t ''//''"
  by (simp add: match_end_def)

lemma no_pair_inside:
  assumes "x \<notin> set y" and "y \<noteq> []" and "startswith (drop k (x # y @ r)) [x, x]"
  shows "\<exists>j. drop k (x # y @ r) = drop j r"
proof (cases "k \<ge> Suc (length y)")
  case True
  then obtain d where "k = Suc (length y + d)"
    by (metis Suc_le_D add_Suc le_Suc_ex)
  then have "drop k (x # y @ r) = drop d r" by simp
  then show ?thesis by blast
next
  case False
  then have k: "k \<le> length y" by simp
  have "\<not> startswith (drop k (x # y @ r)) [x, x]"
  proof (cases k)
    case 0
    from assms(2) obtain a y' where y: "y = a # y'" by (cases y) auto
    with assms(1) have "a \<noteq> x" by auto
    with 0 show ?thesis unfolding y by simp
  next
    case (Suc k')
    with k have lt: "k' < length y" by simp
    then have d: "drop k' y = y ! k' # drop (Suc k') y"
      by (simp add: Cons_nth_drop_Suc)
    from lt assms(1) have "y ! k' \<noteq> x"
      by (metis nth_mem)
    moreover have "drop k (x # y @ r) = drop k' y @ r"
      using Suc lt by simp
    ultimately show ?thesis by (simp add: d)
  qed
  with assms(3) show ?thesis by simp
qed

text \<open>
  An end sentinel found behind the first character of a begin match lies behind
  the whole begin match: no second slash pair starts inside it.
\<close>

lemma end_behind_begin:
  assumes "match_begin (c # cs) = Some r" and "match_end (drop k cs)"
  shows "\<exists>j. drop k cs = drop j r"
proof -
  from match_begin_decomp [OF assms(1)] obtain ws where
    s: "c # cs = ''//'' @ ws @ ''==UserScript=='' @ r" and sp: "\<forall>c \<in> set ws. is_space c"
    by blast
  let ?y = "ws @ ''==UserScript==''"
  have "\<not> is_space (CHR ''/'')" by (simp add: is_space_def)
  with sp have ns: "CHR ''/'' \<notin> set ?y" by auto
  have ne: "?y \<noteq> []" by simp
  from s have cs: "cs = CHR ''/'' # ?y @ r" by simp
  from match_end_slashes [OF assms(2)]
  have "startswith (drop k (CHR ''/'' # ?y @ r)) [CHR ''/'', CHR ''/'']"
    by (simp only: cs)
  from no_pair_inside [OF ns ne this] show ?thesis
    by (simp only: cs)
qed

lemma match_begin_drop: "match_begin s = Some r \<Longrightarrow> \<exists>m. r = drop m s"
proof -
  assume "match_begin s = Some r"
  from match_begin_decomp [OF this] obtain ws where
    "s = ''//'' @ ws @ ''==UserScript=='' @ r" by blast
  then have "r = drop (length (''//'' @ ws @ ''==UserScript=='')) s"
    by (metis append.assoc append_eq_conv_conj)
  then show ?thesis by blast
qed

lemma search_header_end:
  "search_header s = Some h \<Longrightarrow> \<exists>k. match_end (drop k s)"
proof (induction s)
  case Nil
  then show ?case by simp
next
  case (Cons c cs)
  have tl: "\<exists>k. match_end (drop k (c # cs))" if "search_header cs = Some h"
  proof -
    from Cons.IH [OF that] obtain k where "match_end (drop k cs)" by blast
    then have "match_end (drop (Suc k) (c # cs))" by simp
    then show ?thesis by blast
  qed
  show ?case
  proof (cases "match_begin (c # cs)")
    case None
    with Cons.prems tl show ?thesis by simp
  next
    case (Some r)
    show ?thesis
    proof (cases "lazy_group r")
      case None
      with Some Cons.prems tl show ?thesis by simp
    next
      case (Some h')
      then have "lazy_group r \<noteq> None" by simp
      then obtain j where j: "match_end (drop j r)"
        by (auto simp: lazy_group_None)
      from match_begin_drop [OF \<open>match_begin (c # cs) = Some r\<close>] obtain m where
        "r = drop m (c # cs)" by blast
      with j have "match_end (drop (j + m) (c # cs))" by (simp add: add.commute)
      then show ?thesis by blast
    qed
  qed
qed

lemma search_header_block: "search_header s = header_block s"
proof (induction s)
  case Nil
  show ?case by (simp add: header_block_def)
next
  case (Cons c cs)
  show ?case
  proof (cases "match_begin (c # cs)")
    case None
    with Cons.IH show ?thesis by (simp add: header_block_def)
  next
    case (Some r)
    show ?thesis
    proof (cases "lazy_group r")
      case (Some h)
      with \<open>match_begin (c # cs) = Some r\<close> show ?thesis by (simp add: header_block_def)
    next
      case None
      have "search_header cs = None"
      proof (rule ccontr)
        assume "search_header cs \<noteq> None"
        then obtain h where "search_header cs = Some h" by auto
        from search_header_end [OF this] obtain k where k: "match_end (drop k cs)" by blast
        from end_behind_begin [OF Some k] obtain j where "drop k cs = drop j r" by blast
        with k None show False by (simp add: lazy_group_None)
      qed
      with None Some show ?thesis by (simp add: header_block_def)
    qed
  qed
qed

text \<open>
  Claim C7. The block the header pattern finds is the text between the first begin
  sentinel and the first end sentinel after it. A script with no such block gives
  the empty mapping. Otherwise, with \<open>header\<close> the text of the block, the mapping
  holds for every key what the lines of the block contribute to it: nothing for a
  key no line gives, the value as a scalar string for a key given once, and the list
  of the values in the order of the lines for a key given several times; the keys
  stand in the order in which they are first seen.
\<close>

theorem metadata_meets_spec:
  "search_header script = header_block script \<and>
   (search_header script = None \<longrightarrow> parse_userscript_metadata script = []) \<and>
   (\<forall>header. search_header script = Some header \<longrightarrow>
      (\<forall>key. map_of (parse_userscript_metadata script) key =
               metadata_value (values_of key (header_entries header))) \<and>
      map fst (parse_userscript_metadata script) = first_seen (map fst (header_entries header)))"
proof (intro conjI allI impI)
  show "search_header script = header_block script"
    by (rule search_header_block)
next
  assume "search_header script = None"
  then show "parse_userscript_metadata script = []"
    by (simp add: parse_userscript_metadata_def)
next
  fix header key
  assume h: "search_header script = Some header"
  from parse_header_inv [of header] h
  show "map_of (parse_userscript_metadata script) key =
          metadata_value (values_of key (header_entries header))"
    by (simp add: parse_userscript_metadata_def md_inv_def)
next
  fix header
  assume h: "search_header script = Some header"
  from parse_header_inv [of header] h
  show "map fst (parse_userscript_metadata script) = first_seen (map fst (header_entries header))"
    by (simp add: parse_userscript_metadata_def md_inv_def)
qed

theorem metadata_meets_spec_witness:
  \<open>search_header ''// ==UserScript==\<newline>// @name Foo\<newline>// @match a\<newline>// @match b\<newline>// ==/UserScript==\<newline>x''
     = Some ''\<newline>// @name Foo\<newline>// @match a\<newline>// @match b\<newline>''
   \<and> map_of (parse_userscript_metadata
         ''// ==UserScript==\<newline>// @name Foo\<newline>// @match a\<newline>// @match b\<newline>// ==/UserScript==\<newline>x'')
         ''match'' = Some (JArr [JStr ''a'', JStr ''b''])
   \<and> map_of (parse_userscript_metadata
         ''// ==UserScript==\<newline>// @name Foo\<newline>// @match a\<newline>// @match b\<newline>// ==/UserScript==\<newline>x'')
         ''name'' = Some (JStr ''Foo'')
   \<and> map fst (parse_userscript_metadata
         ''// ==UserScript==\<newline>// @name Foo\<newline>// @match a\<newline>// @match b\<newline>// ==/UserScript==\<newline>x'')
       = [''name'', ''match'']\<close>
proof -
  let ?s = \<open>''// ==UserScript==\<newline>// @name Foo\<newline>// @match a\<newline>// @match b\<newline>// ==/UserScript==\<newline>x''\<close>
  let ?h = \<open>''\<newline>// @name Foo\<newline>// @match a\<newline>// @match b\<newline>''\<close>
  have h: "search_header ?s = Some ?h"
    by code_simp
  have e: "header_entries ?h = [(''name'', ''Foo''), (''match'', ''a''), (''match'', ''b'')]"
    by code_simp
  have v1: "metadata_value (values_of ''match'' (header_entries ?h)) = Some (JArr [JStr ''a'', JStr ''b''])"
    unfolding e by code_simp
  have v2: "metadata_value (values_of ''name'' (header_entries ?h)) = Some (JStr ''Foo'')"
    unfolding e by code_simp
  have v3: "first_seen (map fst (header_entries ?h)) = [''name'', ''match'']"
    unfolding e by code_simp
  from metadata_meets_spec [of ?s] h
  have "(\<forall>key. map_of (parse_userscript_metadata ?s) key =
               metadata_value (values_of key (header_entries ?h))) \<and>
        map fst (parse_userscript_metadata ?s) = first_seen (map fst (header_entries ?h))"
    by blast
  with h v1 v2 v3 show ?thesis by simp
qed

section \<open>Properties of the export loop\<close>

lemma export_one_Inr:
  assumes "script_filename uuid script = Inr f"
  shows "export_one now (uuid, script) st =
     Inr \<lparr> st_files =
            (if st_files st f = None \<or> (\<exists>e. st_files st f = Some e \<and> read_text e \<noteq> script)
             then (st_files st)(f \<mapsto> script) else st_files st),
          exported = exported st @ [export_entry uuid script f (now (clock st))],
          added = (if st_files st f = None then added st + 1 else added st),
          updated = (if \<exists>e. st_files st f = Some e \<and> read_text e \<noteq> script
                     then updated st + 1 else updated st),
          clock = clock st + 1 \<rparr>"
  using assms by (cases "st_files st f") (simp_all add: export_one_def Let_def)

lemma export_one_Inl:
  "script_filename uuid script = Inl e \<Longrightarrow> export_one now (uuid, script) st = Inl e"
  by (simp add: export_one_def)

lemma export_one_cases:
  obtains (fault) e where "script_filename uuid script = Inl e"
      "export_one now (uuid, script) st = Inl e"
  | (ok) f st' where "script_filename uuid script = Inr f"
      "export_one now (uuid, script) st = Inr st'"
      "st_files st' = (if st_files st f = None \<or> (\<exists>e. st_files st f = Some e \<and> read_text e \<noteq> script)
             then (st_files st)(f \<mapsto> script) else st_files st)"
      "exported st' = exported st @ [export_entry uuid script f (now (clock st))]"
      "added st' = (if st_files st f = None then added st + 1 else added st)"
      "updated st' = (if \<exists>e. st_files st f = Some e \<and> read_text e \<noteq> script
                     then updated st + 1 else updated st)"
      "clock st' = clock st + 1"
proof (cases "script_filename uuid script")
  case (Inl e)
  with export_one_Inl [OF Inl] fault show ?thesis by blast
next
  case (Inr f)
  show ?thesis
    by (rule ok [OF Inr export_one_Inr [OF Inr]]) simp_all
qed

text \<open>A step never removes a file, and changes only the file of its own script.\<close>

lemma export_one_frame:
  assumes "export_one now (uuid, script) st = Inr st'" and "st_files st g = Some c"
  shows "\<exists>c'. st_files st' g = Some c' \<and>
           (c' \<noteq> c \<longrightarrow> script_filename uuid script = Inr g \<and> c' = script \<and> read_text c \<noteq> script)"
proof (cases rule: export_one_cases [of uuid script now st])
  case (fault e)
  with assms show ?thesis by simp
next
  case (ok f st'')
  with assms have "st'' = st'" by simp
  with ok assms(2) show ?thesis by (cases "g = f") auto
qed

lemma export_loop_frame:
  assumes "export_loop now items st = (res, st')" and "st_files st g = Some c"
  shows "\<exists>c'. st_files st' g = Some c' \<and>
           (c' \<noteq> c \<longrightarrow> (\<exists>(u, s) \<in> set items. script_filename u s = Inr g \<and> c' = s)) \<and>
           ((\<forall>(u, s) \<in> set items. script_filename u s = Inr g \<longrightarrow> read_text c = s) \<longrightarrow> c' = c)"
  using assms
proof (induction items arbitrary: st c)
  case Nil
  then show ?case by simp
next
  case (Cons item items)
  obtain u s where item: "item = (u, s)" by (cases item)
  show ?case
  proof (cases "export_one now (u, s) st")
    case (Inl e)
    with Cons.prems item show ?thesis by simp
  next
    case (Inr st1)
    from export_one_frame [OF Inr Cons.prems(2)] obtain c1 where
      c1: "st_files st1 g = Some c1"
      "c1 \<noteq> c \<longrightarrow> script_filename u s = Inr g \<and> c1 = s \<and> read_text c \<noteq> s"
      by blast
    from Cons.prems(1) item Inr have "export_loop now items st1 = (res, st')" by simp
    from Cons.IH [OF this c1(1)] obtain c' where
      c': "st_files st' g = Some c'"
      "c' \<noteq> c1 \<longrightarrow> (\<exists>(u, s) \<in> set items. script_filename u s = Inr g \<and> c' = s)"
      "(\<forall>(u, s) \<in> set items. script_filename u s = Inr g \<longrightarrow> read_text c1 = s) \<longrightarrow> c' = c1"
      by blast
    have a: "c' \<noteq> c \<longrightarrow> (\<exists>(u, s) \<in> set (item # items). script_filename u s = Inr g \<and> c' = s)"
      using c1(2) c'(2) item by (cases "c' = c1") auto
    have b: "(\<forall>(u, s) \<in> set (item # items). script_filename u s = Inr g \<longrightarrow> read_text c = s) \<longrightarrow> c' = c"
    proof
      assume h: "\<forall>(u, s) \<in> set (item # items). script_filename u s = Inr g \<longrightarrow> read_text c = s"
      with c1(2) item have "c1 = c" by auto
      with h c'(3) show "c' = c" by auto
    qed
    from c'(1) a b show ?thesis by blast
  qed
qed

lemma export_loop_settled:
  assumes "settled scripts (st_files st)" and "set items \<subseteq> set scripts"
  shows "\<exists>st'. export_loop now items st = (None, st') \<and> st_files st' = st_files st \<and>
           added st' = added st \<and> updated st' = updated st"
  using assms
proof (induction items arbitrary: st)
  case Nil
  then show ?case by simp
next
  case (Cons item items)
  obtain u s where item: "item = (u, s)" by (cases item)
  with Cons.prems have "(u, s) \<in> set scripts" by simp
  with Cons.prems(1) obtain f e where
    f: "script_filename u s = Inr f" "st_files st f = Some e" "read_text e = s"
    by (auto simp: settled_def)
  let ?st1 = "\<lparr> st_files = st_files st,
          exported = exported st @ [export_entry u s f (now (clock st))],
          added = added st, updated = updated st, clock = clock st + 1 \<rparr>"
  have one: "export_one now (u, s) st = Inr ?st1"
    using f by (simp add: export_one_Inr [OF f(1)])
  have "settled scripts (st_files ?st1)" using Cons.prems(1) by simp
  moreover have "set items \<subseteq> set scripts" using Cons.prems(2) by simp
  ultimately obtain st' where
    "export_loop now items ?st1 = (None, st')" "st_files st' = st_files ?st1"
    "added st' = added ?st1" "updated st' = updated ?st1"
    using Cons.IH [of ?st1] by blast
  with one item show ?case by simp
qed

text \<open>
  A file that reads as the text \<open>s\<close> keeps doing so through a loop whose scripts of
  that file name all have the text \<open>s\<close>.
\<close>

lemma export_one_keeps_reading:
  assumes "export_one now (u', s') st = Inr st'"
    and "st_files st f = Some e" and "read_text e = s"
    and "script_filename u' s' = Inr f \<longrightarrow> s' = s"
  shows "\<exists>e'. st_files st' f = Some e' \<and> read_text e' = s"
proof -
  from export_one_frame [OF assms(1,2)] obtain c' where
    c: "st_files st' f = Some c'"
       "c' \<noteq> e \<longrightarrow> script_filename u' s' = Inr f \<and> c' = s' \<and> read_text e \<noteq> s'"
    by blast
  show ?thesis
  proof (cases "c' = e")
    case True
    with c(1) assms(3) show ?thesis by simp
  next
    case False
    with c(2) assms(3,4) show ?thesis by auto
  qed
qed

lemma export_loop_keeps_reading:
  assumes "export_loop now items st = (None, st')"
    and "st_files st f = Some e" and "read_text e = s"
    and "\<forall>(u', s') \<in> set items. script_filename u' s' = Inr f \<longrightarrow> s' = s"
  shows "\<exists>e'. st_files st' f = Some e' \<and> read_text e' = s"
  using assms
proof (induction items arbitrary: st e)
  case Nil
  then show ?case by simp
next
  case (Cons item items)
  obtain u' s' where item: "item = (u', s')" by (cases item)
  show ?case
  proof (cases "export_one now (u', s') st")
    case (Inl x)
    with Cons.prems(1) item show ?thesis by simp
  next
    case (Inr st1)
    from Cons.prems(4) item have "script_filename u' s' = Inr f \<longrightarrow> s' = s" by simp
    from export_one_keeps_reading [OF Inr Cons.prems(2,3) this] obtain e1 where
      e1: "st_files st1 f = Some e1" "read_text e1 = s" by blast
    from Cons.prems(1) item Inr have l: "export_loop now items st1 = (None, st')" by simp
    from Cons.prems(4) have "\<forall>(u', s') \<in> set items. script_filename u' s' = Inr f \<longrightarrow> s' = s"
      by simp
    from Cons.IH [OF l e1 this] show ?thesis .
  qed
qed

text \<open>After a loop that ran to its end, the directory is settled for its scripts.\<close>

lemma export_loop_settles:
  assumes "export_loop now items st = (None, st')"
    and "collision_free items" and "reads_back items"
  shows "settled items (st_files st')"
  using assms
proof (induction items arbitrary: st)
  case Nil
  then show ?case by (simp add: settled_def)
next
  case (Cons item items)
  obtain u s where item: "item = (u, s)" by (cases item)
  show ?case
  proof (cases rule: export_one_cases [of u s now st])
    case (fault e)
    with Cons.prems(1) item show ?thesis by simp
  next
    case (ok f st1)
    from Cons.prems(3) item have rb: "read_text s = s" by (simp add: reads_back_def)
    from ok(3) rb have "\<exists>e. st_files st1 f = Some e \<and> read_text e = s"
      by (cases "st_files st f") auto
    then obtain e where e: "st_files st1 f = Some e" "read_text e = s" by blast
    from Cons.prems(1) item ok(2) have l: "export_loop now items st1 = (None, st')" by simp
    from Cons.prems(2) item ok(1)
    have same: "\<forall>(u', s') \<in> set items. script_filename u' s' = Inr f \<longrightarrow> s' = s"
      by (fastforce simp: collision_free_def)
    from export_loop_keeps_reading [OF l e same]
    have first: "\<exists>e'. st_files st' f = Some e' \<and> read_text e' = s" .
    have "collision_free items" using Cons.prems(2) by (auto simp: collision_free_def)
    moreover have "reads_back items" using Cons.prems(3) by (auto simp: reads_back_def)
    ultimately have "settled items (st_files st')" using Cons.IH [OF l] by blast
    with first ok(1) item show ?thesis by (auto simp: settled_def)
  qed
qed

section \<open>Properties of the manifest merge\<close>

lemma uuid_set_Inr:
  "uuid_set rows = Inr ex \<Longrightarrow> well_formed_rows rows \<and> map row_uuid rows = map Some ex"
proof (induction rows arbitrary: ex)
  case Nil
  then show ?case by (simp add: well_formed_rows_def)
next
  case (Cons row rows)
  from Cons.prems obtain v vs where
    v: "subscript_uuid row = Inr v" "hashable v" "uuid_set rows = Inr vs" "ex = v # vs"
    by (auto split: sum.splits if_splits)
  from Cons.IH [OF v(3)] v show ?case
    by (simp add: well_formed_rows_def row_uuid_def)
qed

lemma replace_entry_rows:
  "(\<forall>row \<in> set rows. \<exists>v. subscript_uuid row = Inr v) \<Longrightarrow>
     replace_entry u exp rows = Inr (replace_rows u exp rows)"
  by (induction rows) (auto simp: replace_rows_def row_uuid_def)

lemma merge_entry_rows:
  assumes "map_of manifest ''scripts'' = Some (JArr rows)"
    and "\<forall>row \<in> set rows. \<exists>v. subscript_uuid row = Inr v"
    and "subscript_uuid exp = Inr u"
  shows "merge_entry ex manifest exp =
           Inr (AList.update ''scripts'' (JArr (merge_rows ex rows exp)) manifest)"
  using assms
  by (simp add: merge_entry_def merge_rows_def iterate_def replace_entry_rows row_uuid_def)

lemma merge_rows_subscript:
  assumes "\<forall>row \<in> set rows. \<exists>v. subscript_uuid row = Inr v" and "subscript_uuid exp = Inr u"
  shows "\<forall>row \<in> set (merge_rows ex rows exp). \<exists>v. subscript_uuid row = Inr v"
  using assms by (auto simp: merge_rows_def replace_rows_def row_uuid_def)

lemma merge_entries_rows:
  assumes "map_of manifest ''scripts'' = Some (JArr rows)"
    and "\<forall>row \<in> set rows. \<exists>v. subscript_uuid row = Inr v"
    and "\<forall>exp \<in> set exps. \<exists>u. subscript_uuid exp = Inr u"
  shows "merge_entries ex manifest exps =
           Inr (AList.update ''scripts'' (JArr (foldl (merge_rows ex) rows exps)) manifest)"
  using assms
proof (induction exps arbitrary: manifest rows)
  case Nil
  then show ?case by (simp add: update_triv)
next
  case (Cons exp exps)
  from Cons.prems(3) obtain u where u: "subscript_uuid exp = Inr u" by auto
  let ?m = "AList.update ''scripts'' (JArr (merge_rows ex rows exp)) manifest"
  have one: "merge_entry ex manifest exp = Inr ?m"
    by (rule merge_entry_rows [OF Cons.prems(1,2) u])
  have m: "map_of ?m ''scripts'' = Some (JArr (merge_rows ex rows exp))"
    by (simp add: update_conv')
  have w: "\<forall>row \<in> set (merge_rows ex rows exp). \<exists>v. subscript_uuid row = Inr v"
    by (rule merge_rows_subscript [OF Cons.prems(2) u])
  from Cons.prems(3) have r: "\<forall>exp \<in> set exps. \<exists>u. subscript_uuid exp = Inr u" by simp
  from Cons.IH [OF m w r] one show ?case by simp
qed

lemma export_entry_uuid:
  "subscript_uuid (export_entry uuid script f t) = Inr (JStr uuid)"
  by (simp add: export_entry_def subscript_uuid_def)

lemma find_snoc:
  "List.find P (xs @ [x]) = (case List.find P xs of Some y \<Rightarrow> Some y | None \<Rightarrow> if P x then Some x else None)"
  by (induction xs) auto

lemma find_None_iff': "List.find P xs = None \<longleftrightarrow> (\<forall>x \<in> set xs. \<not> P x)"
  by (induction xs) auto

lemma find_Some_set: "List.find P xs = Some x \<Longrightarrow> x \<in> set xs \<and> P x"
  by (induction xs) (auto split: if_splits)

lemma replace_rows_append:
  "replace_rows u e (xs @ ys) = replace_rows u e xs @ replace_rows u e ys"
  by (simp add: replace_rows_def)

lemma replace_rows_fresh:
  "\<forall>row \<in> set rows. row_uuid row \<noteq> Some u \<Longrightarrow> replace_rows u e rows = rows"
  by (induction rows) (auto simp: replace_rows_def)

lemma merged_rows_pick:
  "merged_rows rows exps =
     map (pick_row exps) rows @ filter (\<lambda>e. row_uuid e \<notin> set (map row_uuid rows)) exps"
  by (simp add: merged_rows_def)

lemma pick_row_snoc_same:
  assumes "row_uuid e = Some u" and "\<forall>e' \<in> set exps. row_uuid e' \<noteq> Some u"
  shows "(if row_uuid (pick_row exps row) = Some u then e else pick_row exps row)
           = pick_row (exps @ [e]) row"
proof (cases "List.find (\<lambda>e. row_uuid e = row_uuid row) exps")
  case None
  with assms(1) show ?thesis by (auto simp: pick_row_def find_snoc)
next
  case (Some y)
  from find_Some_set [OF Some] assms(2) have "row_uuid y \<noteq> Some u" by auto
  with Some show ?thesis by (simp add: pick_row_def find_snoc)
qed

lemma pick_row_snoc_other:
  assumes "row_uuid e \<noteq> row_uuid row"
  shows "pick_row (exps @ [e]) row = pick_row exps row"
  using assms by (auto simp: pick_row_def find_snoc split: option.splits)

lemma foldl_merge_rows:
  assumes "map row_uuid rows = map Some ex"
    and "\<forall>e \<in> set exps. row_uuid e \<noteq> None"
    and "distinct (map row_uuid exps)"
  shows "foldl (merge_rows ex) rows exps = merged_rows rows exps"
  using assms(2,3)
proof (induction exps rule: rev_induct)
  case Nil
  have "map (pick_row []) rows = rows"
    by (induction rows) (simp_all add: pick_row_def)
  then show ?case by (simp add: merged_rows_pick)
next
  case (snoc e exps)
  from snoc.prems obtain u where u: "row_uuid e = Some u" by auto
  from snoc.prems u have fresh: "\<forall>e' \<in> set exps. row_uuid e' \<noteq> Some u"
    by (auto simp: image_iff)
  from snoc.prems snoc.IH have ih: "foldl (merge_rows ex) rows exps = merged_rows rows exps"
    by simp
  have U: "set (map row_uuid rows) = Some ` set ex"
    unfolding assms(1) by simp
  show ?case
  proof (cases "u \<in> set ex")
    case True
    then have inU: "row_uuid e \<in> set (map row_uuid rows)"
      unfolding U u by simp
    have a: "replace_rows u e (map (pick_row exps) rows) = map (pick_row (exps @ [e])) rows"
      using pick_row_snoc_same [OF u fresh] by (simp add: replace_rows_def)
    have b: "replace_rows u e (filter (\<lambda>e. row_uuid e \<notin> set (map row_uuid rows)) exps)
               = filter (\<lambda>e. row_uuid e \<notin> set (map row_uuid rows)) exps"
      using fresh by (intro replace_rows_fresh) simp
    have "foldl (merge_rows ex) rows (exps @ [e]) = replace_rows u e (merged_rows rows exps)"
      using True u ih by (simp add: merge_rows_def)
    also have "\<dots> = map (pick_row (exps @ [e])) rows
                   @ filter (\<lambda>e. row_uuid e \<notin> set (map row_uuid rows)) exps"
      by (simp only: merged_rows_pick replace_rows_append a b)
    also have "\<dots> = merged_rows rows (exps @ [e])"
      using inU by (simp add: merged_rows_pick)
    finally show ?thesis .
  next
    case False
    then have notU: "row_uuid e \<notin> set (map row_uuid rows)"
      unfolding U u by auto
    have a: "map (pick_row (exps @ [e])) rows = map (pick_row exps) rows"
    proof (rule map_cong [OF refl])
      fix row assume "row \<in> set rows"
      with notU have "row_uuid e \<noteq> row_uuid row" by auto
      then show "pick_row (exps @ [e]) row = pick_row exps row"
        by (rule pick_row_snoc_other)
    qed
    have "foldl (merge_rows ex) rows (exps @ [e]) = merged_rows rows exps @ [e]"
      using False u ih by (simp add: merge_rows_def)
    also have "\<dots> = merged_rows rows (exps @ [e])"
      using notU by (simp add: merged_rows_pick a)
    finally show ?thesis .
  qed
qed

section \<open>Properties of a whole run\<close>

lemma export_userscripts_unfold:
  "export_userscripts now scripts d inc =
     (case export_loop now scripts (start_state d) of
        (Some e, st) \<Rightarrow> (Inl e, d \<lparr> files := st_files st \<rparr>)
      | (None, st) \<Rightarrow>
          (if inc \<and> (added st > 0 \<or> updated st > 0) then
             (case update_manifest now (clock st) (manifest_file d) (exported st) of
                Inl e \<Rightarrow> (Inl e, d \<lparr> files := st_files st \<rparr>)
              | Inr manifest \<Rightarrow>
                  (Inr \<lparr> exported_list = exported st, added_count = added st,
                         updated_count = updated st, removed_count = 0 \<rparr>,
                   d \<lparr> files := st_files st, manifest_file := Some (Json manifest) \<rparr>))
           else (Inr \<lparr> exported_list = exported st, added_count = added st,
                       updated_count = updated st, removed_count = 0 \<rparr>,
                 d \<lparr> files := st_files st \<rparr>)))"
  by (auto simp: export_userscripts_def start_state_def Let_def split: prod.splits option.splits)

lemma export_userscripts_files:
  "files (snd (export_userscripts now scripts d inc)) =
     st_files (snd (export_loop now scripts (start_state d)))"
  by (simp add: export_userscripts_unfold split: prod.splits option.splits sum.splits)

lemma export_userscripts_returned:
  assumes "fst (export_userscripts now scripts d inc) = Inr r"
  shows "\<exists>st. export_loop now scripts (start_state d) = (None, st)
    \<and> r = \<lparr> exported_list = exported st, added_count = added st,
               updated_count = updated st, removed_count = 0 \<rparr>
    \<and> files (snd (export_userscripts now scripts d inc)) = st_files st
    \<and> (inc \<and> (added st > 0 \<or> updated st > 0) \<longrightarrow>
           (\<exists>m. update_manifest now (clock st) (manifest_file d) (exported st) = Inr m \<and>
               manifest_file (snd (export_userscripts now scripts d inc)) = Some (Json m)))
    \<and> (\<not> (inc \<and> (added st > 0 \<or> updated st > 0)) \<longrightarrow>
           manifest_file (snd (export_userscripts now scripts d inc)) = manifest_file d)"
proof -
  obtain res st where l: "export_loop now scripts (start_state d) = (res, st)"
    by (cases "export_loop now scripts (start_state d)")
  with assms have n: "res = None"
    by (cases res) (simp_all add: export_userscripts_unfold)
  have a: "export_loop now scripts (start_state d) = (None, st)" using l n by simp
  have b: "r = \<lparr> exported_list = exported st, added_count = added st,
               updated_count = updated st, removed_count = 0 \<rparr>"
    using assms l n by (auto simp: export_userscripts_unfold split: if_splits sum.splits)
  have c: "files (snd (export_userscripts now scripts d inc)) = st_files st"
    using l by (simp add: export_userscripts_files)
  have d: "\<exists>m. update_manifest now (clock st) (manifest_file d) (exported st) = Inr m \<and>
               manifest_file (snd (export_userscripts now scripts d inc)) = Some (Json m)"
    if "inc \<and> (added st > 0 \<or> updated st > 0)"
    using that assms l n by (auto simp: export_userscripts_unfold split: sum.splits)
  have e: "manifest_file (snd (export_userscripts now scripts d inc)) = manifest_file d"
    if "\<not> (inc \<and> (added st > 0 \<or> updated st > 0))"
    using that l n by (auto simp: export_userscripts_unfold)
  have d': "inc \<and> (added st > 0 \<or> updated st > 0) \<longrightarrow>
           (\<exists>m. update_manifest now (clock st) (manifest_file d) (exported st) = Inr m \<and>
               manifest_file (snd (export_userscripts now scripts d inc)) = Some (Json m))"
    using d by (rule impI)
  have e': "\<not> (inc \<and> (added st > 0 \<or> updated st > 0)) \<longrightarrow>
           manifest_file (snd (export_userscripts now scripts d inc)) = manifest_file d"
    using e by (rule impI)
  from a b c d' e' show ?thesis by (intro exI [of _ st] conjI)
qed

lemma export_loop_exported:
  assumes "export_loop now items st = (None, st')"
  shows "exported st' = exported st @ map2 (entry_of now) [clock st..<clock st + length items] items
         \<and> clock st' = clock st + length items
         \<and> added st' + updated st' \<le> added st + updated st + length items
         \<and> added st \<le> added st' \<and> updated st \<le> updated st'"
  using assms
proof (induction items arbitrary: st)
  case Nil
  then show ?case by simp
next
  case (Cons item items)
  obtain u s where item: "item = (u, s)" by (cases item)
  show ?case
  proof (cases rule: export_one_cases [of u s now st])
    case (fault e)
    with Cons.prems item show ?thesis by simp
  next
    case (ok f st1)
    from Cons.prems item ok(2) have l: "export_loop now items st1 = (None, st')" by simp
    have e: "entry_of now (clock st) item = export_entry u s f (now (clock st))"
      using ok(1) item by (simp add: entry_of_def)
    have "[clock st..<clock st + Suc (length items)]
               = clock st # [Suc (clock st)..<Suc (clock st) + length items]"
      by (subst upt_rec) simp
    then have r: "[clock st..<clock st + length (item # items)]
               = clock st # [clock st1..<clock st1 + length items]"
      using ok(7) by (simp del: upt_Suc)
    from Cons.IH [OF l] have
      ih1: "exported st' = exported st1 @ map2 (entry_of now) [clock st1..<clock st1 + length items] items"
      and ih2: "clock st' = clock st1 + length items"
      and ih3: "added st' + updated st' \<le> added st1 + updated st1 + length items"
      and ih4: "added st1 \<le> added st'" and ih5: "updated st1 \<le> updated st'"
      by simp_all
    have a1: "added st1 + updated st1 \<le> added st + updated st + 1"
      unfolding ok(5,6) by (cases "st_files st f") simp_all
    have a2: "added st \<le> added st1" unfolding ok(5) by simp
    have a3: "updated st \<le> updated st1" unfolding ok(6) by simp
    have c1: "exported st' = exported st @ map2 (entry_of now) [clock st..<clock st + length (item # items)] (item # items)"
      unfolding r ih1 ok(4) by (simp add: e)
    have c2: "clock st' = clock st + length (item # items)"
      unfolding ih2 ok(7) by simp
    have c3: "added st' + updated st' \<le> added st + updated st + length (item # items)"
      using ih3 a1 by simp
    have c4: "added st \<le> added st'" using a2 ih4 by simp
    have c5: "updated st \<le> updated st'" using a3 ih5 by simp
    from c1 c2 c3 c4 c5 show ?thesis by (intro conjI)
  qed
qed

text \<open>
  Claim C9. Whatever the input and the directory, a run that returns reports
  \<open>removed = 0\<close>, and every file of the directory is still there after the run,
  whether the run returned or raised.
\<close>

theorem removed_always_zero:
  "(\<forall>r. fst (export_userscripts now scripts d inc) = Inr r \<longrightarrow> removed_count r = 0) \<and>
   dom (files d) \<subseteq> dom (files (snd (export_userscripts now scripts d inc)))"
proof
  show "\<forall>r. fst (export_userscripts now scripts d inc) = Inr r \<longrightarrow> removed_count r = 0"
  proof (intro allI impI)
    fix r assume "fst (export_userscripts now scripts d inc) = Inr r"
    from export_userscripts_returned [OF this] show "removed_count r = 0"
      by (elim exE conjE) simp
  qed
  show "dom (files d) \<subseteq> dom (files (snd (export_userscripts now scripts d inc)))"
  proof
    fix g assume "g \<in> dom (files d)"
    then obtain c where c: "st_files (start_state d) g = Some c"
      by (auto simp: start_state_def)
    obtain res st where l: "export_loop now scripts (start_state d) = (res, st)"
      by (cases "export_loop now scripts (start_state d)")
    from export_loop_frame [OF l c] l
    show "g \<in> dom (files (snd (export_userscripts now scripts d inc)))"
      by (auto simp: export_userscripts_files)
  qed
qed

theorem removed_always_zero_witness:
  "\<not> isl (fst (export_userscripts sample_clock [(''id1'', foo_script ''1'')]
                 (empty_dir \<lparr> files := [''old.user.js'' \<mapsto> ''z''] \<rparr>) True))
   \<and> removed_count (projr (fst (export_userscripts sample_clock [(''id1'', foo_script ''1'')]
                 (empty_dir \<lparr> files := [''old.user.js'' \<mapsto> ''z''] \<rparr>) True))) = 0
   \<and> ''old.user.js'' \<in> dom (files (snd (export_userscripts sample_clock [(''id1'', foo_script ''1'')]
                 (empty_dir \<lparr> files := [''old.user.js'' \<mapsto> ''z''] \<rparr>) True)))"
proof -
  let ?d = "empty_dir \<lparr> files := [''old.user.js'' \<mapsto> ''z''] \<rparr>"
  let ?R = "export_userscripts sample_clock [(''id1'', foo_script ''1'')] ?d True"
  have a: "\<not> isl (fst ?R)" by code_simp
  then obtain r where r: "fst ?R = Inr r" by (cases "fst ?R") auto
  have o: "''old.user.js'' \<in> dom (files ?d)" by simp
  from removed_always_zero [of sample_clock "[(''id1'', foo_script ''1'')]" ?d True] r o
  have "removed_count r = 0" and "''old.user.js'' \<in> dom (files (snd ?R))" by blast+
  with a r show ?thesis by simp
qed




text \<open>
  Claim C1, as amended. Take an input that is collision free and reads back, and a
  first run that returned. A second run with the same input over the directory the
  first run left, at any later clock and with the manifest switched on or off,
  returns with \<open>added = 0\<close> and \<open>updated = 0\<close> and leaves the directory as it was:
  every file and the manifest are unchanged.
\<close>

theorem export_idempotent:
  assumes "fst (export_userscripts now scripts d inc) = Inr r1"
    and "collision_free scripts" and "reads_back scripts"
  shows "\<exists>r2. export_userscripts now' scripts (snd (export_userscripts now scripts d inc)) inc'
              = (Inr r2, snd (export_userscripts now scripts d inc))
            \<and> added_count r2 = 0 \<and> updated_count r2 = 0"
proof -
  let ?d1 = "snd (export_userscripts now scripts d inc)"
  from export_userscripts_returned [OF assms(1)] obtain st1 where
    "export_loop now scripts (start_state d) = (None, st1) \<and> files ?d1 = st_files st1"
    by (elim exE conjE) (rule that, rule conjI)
  then have l1: "export_loop now scripts (start_state d) = (None, st1)"
    and f1: "files ?d1 = st_files st1"
    by simp_all
  from export_loop_settles [OF l1 assms(2,3)] f1
  have "settled scripts (st_files (start_state ?d1))"
    by (simp add: start_state_def)
  from export_loop_settled [OF this subset_refl, of now'] obtain st2 where
    l2: "export_loop now' scripts (start_state ?d1) = (None, st2)"
    and s2: "st_files st2 = st_files (start_state ?d1)"
       "added st2 = added (start_state ?d1)" "updated st2 = updated (start_state ?d1)"
    by blast
  from s2 have z: "st_files st2 = files ?d1" "added st2 = 0" "updated st2 = 0"
    by (simp_all add: start_state_def)
  have "export_userscripts now' scripts ?d1 inc'
          = (Inr \<lparr> exported_list = exported st2, added_count = 0,
                    updated_count = 0, removed_count = 0 \<rparr>, ?d1)"
    unfolding export_userscripts_unfold [of now' scripts ?d1 inc'] l2
    by (simp add: z)
  then show ?thesis by simp
qed

theorem export_idempotent_witness:
  "collision_free [(''id1'', foo_script ''1'')] \<and> reads_back [(''id1'', foo_script ''1'')]
   \<and> \<not> isl (fst (export_userscripts sample_clock [(''id1'', foo_script ''1'')] empty_dir True))
   \<and> (\<exists>r2. export_userscripts sample_clock [(''id1'', foo_script ''1'')]
               (snd (export_userscripts sample_clock [(''id1'', foo_script ''1'')] empty_dir True)) True
             = (Inr r2, snd (export_userscripts sample_clock [(''id1'', foo_script ''1'')] empty_dir True))
           \<and> added_count r2 = 0 \<and> updated_count r2 = 0)"
proof -
  let ?s = "[(''id1'', foo_script ''1'')]"
  let ?R = "export_userscripts sample_clock ?s empty_dir True"
  have a: "\<not> isl (fst ?R)" by code_simp
  then obtain r1 where r1: "fst ?R = Inr r1" by (cases "fst ?R") auto
  have c: "collision_free ?s" by code_simp
  have b: "reads_back ?s" by code_simp
  from export_idempotent [OF r1 c b, of sample_clock True] a c b show ?thesis
    by blast
qed

text \<open>
  The claim as it was stated fails: two scripts with the same name and different
  texts share one file, so the second run over the directory the first run left
  overwrites that file twice more and reports \<open>updated = 2\<close>.
\<close>

theorem export_idempotent_counterexample:
  "\<not> isl (fst (export_userscripts sample_clock
                 [(''id1'', foo_script ''1''), (''id2'', foo_script ''2'')]
                 (snd (export_userscripts sample_clock
                         [(''id1'', foo_script ''1''), (''id2'', foo_script ''2'')] empty_dir True))
                 True))
   \<and> updated_count (projr (fst (export_userscripts sample_clock
                 [(''id1'', foo_script ''1''), (''id2'', foo_script ''2'')]
                 (snd (export_userscripts sample_clock
                         [(''id1'', foo_script ''1''), (''id2'', foo_script ''2'')] empty_dir True))
                 True))) = 2"
  by code_simp

section \<open>Properties of the manifest branch\<close>

lemma update_manifest_well_formed:
  assumes "load_manifest now k mf = JObj kvs"
    and "map_of kvs ''scripts'' = Some (JArr rows)"
    and "uuid_set rows = Inr ex"
    and "\<forall>e \<in> set exps. \<exists>u. subscript_uuid e = Inr u"
  shows "update_manifest now k mf exps =
           Inr (JObj (AList.update ''last_updated'' (JStr (now (k + 1)))
                  (AList.update ''scripts'' (JArr (foldl (merge_rows ex) rows exps)) kvs)))"
proof -
  from uuid_set_Inr [OF assms(3)] have "\<forall>row \<in> set rows. \<exists>v. subscript_uuid row = Inr v"
    by (auto simp: well_formed_rows_def)
  from merge_entries_rows [OF assms(2) this assms(4), of ex] assms(1,2,3) show ?thesis
    by (simp add: update_manifest_def get_scripts_def iterate_def)
qed

lemma update_manifest_shape:
  assumes "update_manifest now k mf exps = Inr m" and "exps \<noteq> []"
    and "\<forall>e \<in> set exps. \<exists>u. subscript_uuid e = Inr u"
  shows "\<exists>kvs rows ex. load_manifest now k mf = JObj kvs \<and>
           map_of kvs ''scripts'' = Some (JArr rows) \<and> uuid_set rows = Inr ex"
proof -
  from assms(2) obtain e es where exps: "exps = e # es" by (cases exps) auto
  from assms(3) exps obtain u where u: "subscript_uuid e = Inr u" by auto
  from assms(1) obtain kvs where kvs: "load_manifest now k mf = JObj kvs"
    by (cases "load_manifest now k mf")
       (auto simp: update_manifest_def get_scripts_def)
  let ?x = "case map_of kvs ''scripts'' of None \<Rightarrow> JArr [] | Some v \<Rightarrow> v"
  from assms(1) kvs obtain ss ex kvs' where
    it: "iterate ?x = Inr ss" and us: "uuid_set ss = Inr ex"
    and me: "merge_entries ex kvs exps = Inr kvs'"
    by (auto simp: update_manifest_def get_scripts_def split: sum.splits)
  from me exps obtain kvs1 where m1: "merge_entry ex kvs e = Inr kvs1"
    by (auto split: sum.splits)
  show ?thesis
  proof (cases "map_of kvs ''scripts''")
    case None
    with m1 u show ?thesis
      by (auto simp: merge_entry_def split: if_splits)
  next
    case (Some v)
    show ?thesis
    proof (cases v)
      case (JArr rows)
      with Some it us kvs show ?thesis by (auto simp: iterate_def)
    next
      case (JStr s)
      with Some it have ss: "ss = map (\<lambda>c. JStr [c]) s" by (auto simp: iterate_def)
      have "s = []"
      proof (cases s)
        case Nil then show ?thesis .
      next
        case (Cons c cs)
        with ss us show ?thesis by (simp add: subscript_uuid_def)
      qed
      with ss us have "ex = []" by simp
      with m1 u Some JStr show ?thesis
        by (auto simp: merge_entry_def)
    next
      case (JObj ps)
      with Some it have ss: "ss = map (\<lambda>kv. JStr (fst kv)) ps" by (auto simp: iterate_def)
      have "ps = []"
      proof (cases ps)
        case Nil then show ?thesis .
      next
        case (Cons p ps')
        with ss us show ?thesis by (simp add: subscript_uuid_def)
      qed
      with ss us have "ex = []" by simp
      with m1 u Some JObj show ?thesis
        by (auto simp: merge_entry_def)
    qed (use Some it in \<open>auto simp: iterate_def\<close>)
  qed
qed

lemma entry_of_uuid: "row_uuid (entry_of now k (u, s)) = Some (JStr u)"
  by (simp add: entry_of_def row_uuid_def export_entry_uuid)

lemma entries_uuid:
  "length ks = length items \<Longrightarrow>
     map row_uuid (map2 (entry_of now) ks items) = map (\<lambda>item. Some (JStr (fst item))) items"
proof (induction items arbitrary: ks)
  case Nil
  then show ?case by simp
next
  case (Cons item items)
  then obtain k ks' where ks: "ks = k # ks'" "length ks' = length items"
    by (cases ks) auto
  obtain u s where "item = (u, s)" by (cases item)
  with Cons.IH [OF ks(2)] ks show ?case by (simp add: entry_of_uuid)
qed

lemma row_uuid_subscript: "row_uuid e = Some u \<Longrightarrow> subscript_uuid e = Inr u"
  by (cases "subscript_uuid e") (auto simp: row_uuid_def)

lemma merged_rows_contains:
  assumes "e \<in> set exps" and "distinct (map row_uuid exps)"
  shows "e \<in> set (merged_rows rows exps)"
proof (cases "row_uuid e \<in> set (map row_uuid rows)")
  case False
  with assms(1) show ?thesis by (simp add: merged_rows_def)
next
  case True
  then obtain row where row: "row \<in> set rows" "row_uuid row = row_uuid e" by auto
  from assms(1) row(2) have "List.find (\<lambda>e'. row_uuid e' = row_uuid row) exps \<noteq> None"
    by (auto simp: find_None_iff')
  then obtain e' where f: "List.find (\<lambda>e'. row_uuid e' = row_uuid row) exps = Some e'"
    by auto
  from find_Some_set [OF f] row(2) have "e' \<in> set exps" "row_uuid e' = row_uuid e" by auto
  with assms have "e' = e"
    by (meson distinct_map inj_onD)
  with f have "pick_row exps row = e" by (simp add: pick_row_def)
  with row(1) show ?thesis by (force simp: merged_rows_def)
qed

lemma merged_rows_same_uuid:
  assumes "row' \<in> set (merged_rows rows exps)" and "e \<in> set exps"
    and "row_uuid row' = row_uuid e"
  shows "row' \<in> set exps"
proof -
  from assms(1) consider
    (old) row where "row \<in> set rows" "row' = pick_row exps row"
    | (new) "row' \<in> set exps"
    by (auto simp: merged_rows_def)
  then show ?thesis
  proof cases
    case (old row)
    show ?thesis
    proof (cases "List.find (\<lambda>e'. row_uuid e' = row_uuid row) exps")
      case None
      with old(2) have "row' = row" by (simp add: pick_row_def)
      with None assms(2,3) show ?thesis by (auto simp: find_None_iff')
    next
      case (Some e')
      with old(2) find_Some_set [OF Some] show ?thesis by (simp add: pick_row_def)
    qed
  next
    case new
    then show ?thesis .
  qed
qed

lemma map_of_updated_scripts:
  "map_of (AList.update ''last_updated'' t (AList.update ''scripts'' x kvs)) ''scripts'' = Some x"
  by (simp add: update_conv')

text \<open>What the manifest branch stores for a run's entries, when it does not raise.\<close>

lemma update_manifest_merged:
  assumes "update_manifest now k mf exps = Inr m" and "exps \<noteq> []"
    and "\<forall>e \<in> set exps. row_uuid e \<noteq> None" and "distinct (map row_uuid exps)"
  shows "\<exists>kvs rows. load_manifest now k mf = JObj kvs \<and>
           map_of kvs ''scripts'' = Some (JArr rows) \<and> well_formed_rows rows \<and>
           m = JObj (AList.update ''last_updated'' (JStr (now (k + 1)))
                  (AList.update ''scripts'' (JArr (merged_rows rows exps)) kvs))"
proof -
  have w: "\<forall>e \<in> set exps. \<exists>u. subscript_uuid e = Inr u"
  proof
    fix e assume "e \<in> set exps"
    with assms(3) have "row_uuid e \<noteq> None" by blast
    then show "\<exists>u. subscript_uuid e = Inr u"
      by (cases "subscript_uuid e") (simp_all add: row_uuid_def)
  qed
  from update_manifest_shape [OF assms(1,2) w] obtain kvs rows ex where
    s: "load_manifest now k mf = JObj kvs" "map_of kvs ''scripts'' = Some (JArr rows)"
       "uuid_set rows = Inr ex"
    by blast
  from uuid_set_Inr [OF s(3)] have r: "well_formed_rows rows" "map row_uuid rows = map Some ex"
    by simp_all
  from update_manifest_well_formed [OF s w] assms(1)
  have "m = JObj (AList.update ''last_updated'' (JStr (now (k + 1)))
                  (AList.update ''scripts'' (JArr (foldl (merge_rows ex) rows exps)) kvs))"
    by simp
  with foldl_merge_rows [OF r(2) assms(3,4)] s r(1) show ?thesis by auto
qed

lemma run_entries:
  assumes "export_loop now scripts (start_state d) = (None, st)"
    and "distinct (map fst scripts)"
  shows "exported st = map2 (entry_of now) [0..<length scripts] scripts"
    and "clock st = length scripts"
    and "\<forall>e \<in> set (exported st). row_uuid e \<noteq> None"
    and "distinct (map row_uuid (exported st))"
    and "added st + updated st \<le> length scripts"
    and "row_uuid ` set (exported st) = (\<lambda>u. Some (JStr u)) ` fst ` set scripts"
proof -
  from export_loop_exported [OF assms(1)]
  show e: "exported st = map2 (entry_of now) [0..<length scripts] scripts"
    and "clock st = length scripts"
    and "added st + updated st \<le> length scripts"
    by (simp_all add: start_state_def)
  have u: "map row_uuid (exported st) = map (\<lambda>item. Some (JStr (fst item))) scripts"
    unfolding e by (rule entries_uuid) simp
  have "set (map row_uuid (exported st)) = set (map (\<lambda>item. Some (JStr (fst item))) scripts)"
    by (simp only: u)
  then show i: "row_uuid ` set (exported st) = (\<lambda>u. Some (JStr u)) ` fst ` set scripts"
    by (simp add: image_image)
  then show "\<forall>e \<in> set (exported st). row_uuid e \<noteq> None" by blast
  have "distinct (map (\<lambda>item. Some (JStr (fst item))) scripts)"
    using assms(2) by (auto simp: distinct_map inj_on_def)
  then show "distinct (map row_uuid (exported st))" unfolding u .
qed

lemma export_loop_names:
  assumes "export_loop now items st = (None, st')"
  shows "\<forall>(u, s) \<in> set items. \<exists>f. script_filename u s = Inr f"
  using assms
proof (induction items arbitrary: st)
  case Nil
  then show ?case by simp
next
  case (Cons item items)
  obtain u s where item: "item = (u, s)" by (cases item)
  show ?case
  proof (cases rule: export_one_cases [of u s now st])
    case (fault e)
    with Cons.prems item show ?thesis by simp
  next
    case (ok f st1)
    from Cons.prems item ok(2) have "export_loop now items st1 = (None, st')" by simp
    from Cons.IH [OF this] ok(1) item show ?thesis by simp
  qed
qed

lemma script_filename_Inr:
  assumes "script_filename u s = Inr f"
  shows "\<exists>name. script_name u s = JStr name \<and> f = slugify name @ ''.user.js''"
  using assms by (cases "script_name u s") (simp_all add: script_filename_def)

text \<open>The fields of an entry, as the loop writes them.\<close>

lemma entry_of_fields:
  assumes "script_name u s = JStr name"
  shows "entry_of now k (u, s) =
           JObj [(''uuid'', JStr u),
                 (''name'', JStr name),
                 (''filename'', JStr (slugify name @ ''.user.js'')),
                 (''metadata'', JObj (parse_userscript_metadata s)),
                 (''synced_at'', JStr (now k))]"
  using assms by (simp add: entry_of_def export_entry_def script_filename_def)

lemma map2_upt_nth:
  assumes "k < length items"
  shows "map2 f [0..<length items] items ! k = f k (items ! k)"
  using assms by simp

lemma map_of_updated_last:
  "map_of (AList.update ''last_updated'' t kvs) ''last_updated'' = Some t"
  by (simp add: update_conv')

text \<open>
  Claim C10. In a run that returns, over an input with distinct ids, the entries are
  one per script, in input order. The \<open>k\<close>-th entry is the dictionary of the
  \<open>k\<close>-th script's id, name, file name and metadata, with \<^verbatim>\<open>synced_at\<close> the
  \<open>k\<close>-th reading of the clock in this run, whether the script was added, updated
  or unchanged. If the manifest is switched on and a script was added or updated,
  the manifest stored holds every one of these entries, those of unchanged scripts
  included, a row with the id of an input script is that script's new entry, and
  \<^verbatim>\<open>last_updated\<close> is the clock's last reading. Otherwise the manifest file is what
  it was.
\<close>

theorem manifest_rows_rewritten:
  assumes "fst (export_userscripts now scripts d inc) = Inr r"
    and "distinct (map fst scripts)"
  shows "exported_list r = map2 (entry_of now) [0..<length scripts] scripts \<and>
    length (exported_list r) = length scripts \<and>
    (\<forall>k < length scripts. \<exists>name.
       script_name (fst (scripts ! k)) (snd (scripts ! k)) = JStr name \<and>
       exported_list r ! k =
         JObj [(''uuid'', JStr (fst (scripts ! k))),
               (''name'', JStr name),
               (''filename'', JStr (slugify name @ ''.user.js'')),
               (''metadata'', JObj (parse_userscript_metadata (snd (scripts ! k)))),
               (''synced_at'', JStr (now k))]) \<and>
    (inc \<and> (0 < added_count r \<or> 0 < updated_count r) \<longrightarrow>
       (\<exists>kvs rows. manifest_file (snd (export_userscripts now scripts d inc)) = Some (Json (JObj kvs))
          \<and> map_of kvs ''scripts'' = Some (JArr rows)
          \<and> map_of kvs ''last_updated'' = Some (JStr (now (length scripts + 1)))
          \<and> set (exported_list r) \<subseteq> set rows
          \<and> (\<forall>row \<in> set rows. \<forall>u \<in> fst ` set scripts.
                row_uuid row = Some (JStr u) \<longrightarrow> row \<in> set (exported_list r)))) \<and>
    (\<not> (inc \<and> (0 < added_count r \<or> 0 < updated_count r)) \<longrightarrow>
       manifest_file (snd (export_userscripts now scripts d inc)) = manifest_file d)"
proof -
  let ?d' = "snd (export_userscripts now scripts d inc)"
  from export_userscripts_returned [OF assms(1)] obtain st where
    big: "export_loop now scripts (start_state d) = (None, st)
    \<and> r = \<lparr> exported_list = exported st, added_count = added st,
               updated_count = updated st, removed_count = 0 \<rparr>
    \<and> files ?d' = st_files st
    \<and> (inc \<and> (added st > 0 \<or> updated st > 0) \<longrightarrow>
           (\<exists>m. update_manifest now (clock st) (manifest_file d) (exported st) = Inr m \<and>
               manifest_file ?d' = Some (Json m)))
    \<and> (\<not> (inc \<and> (added st > 0 \<or> updated st > 0)) \<longrightarrow>
           manifest_file ?d' = manifest_file d)"
    ..
  from big have l: "export_loop now scripts (start_state d) = (None, st)"
    by (rule conjunct1)
  from big have r: "r = \<lparr> exported_list = exported st, added_count = added st,
               updated_count = updated st, removed_count = 0 \<rparr>"
    by (rule conjunct1 [OF conjunct2])
  from big have on': "inc \<and> (added st > 0 \<or> updated st > 0) \<longrightarrow>
           (\<exists>m. update_manifest now (clock st) (manifest_file d) (exported st) = Inr m \<and>
               manifest_file ?d' = Some (Json m))"
    by (rule conjunct1 [OF conjunct2 [OF conjunct2 [OF conjunct2]]])
  from big have off': "\<not> (inc \<and> (added st > 0 \<or> updated st > 0)) \<longrightarrow>
           manifest_file ?d' = manifest_file d"
    by (rule conjunct2 [OF conjunct2 [OF conjunct2 [OF conjunct2]]])
  note on = on' [rule_format] and off = off' [rule_format]
  note e = run_entries [OF l assms(2)]
  have c1: "exported_list r = map2 (entry_of now) [0..<length scripts] scripts"
    using r e(1) by simp
  have c1a: "length (exported_list r) = length scripts"
    unfolding c1 by simp
  have c1b: "\<forall>k < length scripts. \<exists>name.
       script_name (fst (scripts ! k)) (snd (scripts ! k)) = JStr name \<and>
       exported_list r ! k =
         JObj [(''uuid'', JStr (fst (scripts ! k))),
               (''name'', JStr name),
               (''filename'', JStr (slugify name @ ''.user.js'')),
               (''metadata'', JObj (parse_userscript_metadata (snd (scripts ! k)))),
               (''synced_at'', JStr (now k))]"
  proof (intro allI impI)
    fix k assume k: "k < length scripts"
    obtain u s where us: "scripts ! k = (u, s)" by (cases "scripts ! k")
    from k have "(u, s) \<in> set scripts" unfolding us [symmetric] by simp
    with export_loop_names [OF l] obtain f where "script_filename u s = Inr f" by blast
    from script_filename_Inr [OF this] obtain name where n: "script_name u s = JStr name"
      by blast
    have "exported_list r ! k = entry_of now k (u, s)"
      unfolding c1 using map2_upt_nth [OF k, of "entry_of now"] by (simp only: us)
    with entry_of_fields [OF n, of now k] n show "\<exists>name.
       script_name (fst (scripts ! k)) (snd (scripts ! k)) = JStr name \<and>
       exported_list r ! k =
         JObj [(''uuid'', JStr (fst (scripts ! k))),
               (''name'', JStr name),
               (''filename'', JStr (slugify name @ ''.user.js'')),
               (''metadata'', JObj (parse_userscript_metadata (snd (scripts ! k)))),
               (''synced_at'', JStr (now k))]"
      by (simp add: us)
  qed
  have c2: "\<exists>kvs rows. manifest_file ?d' = Some (Json (JObj kvs))
          \<and> map_of kvs ''scripts'' = Some (JArr rows)
          \<and> map_of kvs ''last_updated'' = Some (JStr (now (length scripts + 1)))
          \<and> set (exported_list r) \<subseteq> set rows
          \<and> (\<forall>row \<in> set rows. \<forall>u \<in> fst ` set scripts.
                row_uuid row = Some (JStr u) \<longrightarrow> row \<in> set (exported_list r))"
    if h: "inc \<and> (0 < added_count r \<or> 0 < updated_count r)"
  proof -
    from h r have h': "inc \<and> (added st > 0 \<or> updated st > 0)" by simp
    from on [OF h'] obtain m where
      m: "update_manifest now (clock st) (manifest_file d) (exported st) = Inr m"
         "manifest_file ?d' = Some (Json m)"
      by blast
    from h' e(5) have "scripts \<noteq> []" by auto
    with e(1) have ne: "exported st \<noteq> []" by (cases scripts) (simp_all add: upt_rec)
    from update_manifest_merged [OF m(1) ne e(3,4)] obtain kvs rows where
      k: "m = JObj (AList.update ''last_updated'' (JStr (now (clock st + 1)))
                  (AList.update ''scripts'' (JArr (merged_rows rows (exported st))) kvs))"
      by blast
    let ?kvs = "AList.update ''last_updated'' (JStr (now (clock st + 1)))
                  (AList.update ''scripts'' (JArr (merged_rows rows (exported st))) kvs)"
    have a: "manifest_file ?d' = Some (Json (JObj ?kvs))" using m(2) k by simp
    have b: "map_of ?kvs ''scripts'' = Some (JArr (merged_rows rows (exported st)))"
      by (rule map_of_updated_scripts)
    have b': "map_of ?kvs ''last_updated'' = Some (JStr (now (length scripts + 1)))"
      unfolding e(2) by (rule map_of_updated_last)
    have c: "set (exported_list r) \<subseteq> set (merged_rows rows (exported st))"
      using merged_rows_contains [OF _ e(4)] r by auto
    have d: "\<forall>row \<in> set (merged_rows rows (exported st)). \<forall>u \<in> fst ` set scripts.
                row_uuid row = Some (JStr u) \<longrightarrow> row \<in> set (exported_list r)"
    proof (intro ballI impI)
      fix row u
      assume row: "row \<in> set (merged_rows rows (exported st))"
        and u: "u \<in> fst ` set scripts" and ru: "row_uuid row = Some (JStr u)"
      from u e(6) have "Some (JStr u) \<in> row_uuid ` set (exported st)" by blast
      then obtain x where x: "x \<in> set (exported st)" "row_uuid x = Some (JStr u)" by auto
      from merged_rows_same_uuid [OF row x(1)] ru x(2) r
      show "row \<in> set (exported_list r)" by simp
    qed
    from a b b' c d show ?thesis by blast
  qed
  have c3: "manifest_file ?d' = manifest_file d"
    if "\<not> (inc \<and> (0 < added_count r \<or> 0 < updated_count r))"
    using that off r by simp
  from c2 have c2': "inc \<and> (0 < added_count r \<or> 0 < updated_count r) \<longrightarrow>
       (\<exists>kvs rows. manifest_file ?d' = Some (Json (JObj kvs))
          \<and> map_of kvs ''scripts'' = Some (JArr rows)
          \<and> map_of kvs ''last_updated'' = Some (JStr (now (length scripts + 1)))
          \<and> set (exported_list r) \<subseteq> set rows
          \<and> (\<forall>row \<in> set rows. \<forall>u \<in> fst ` set scripts.
                row_uuid row = Some (JStr u) \<longrightarrow> row \<in> set (exported_list r)))"
    by (rule impI)
  from c3 have c3': "\<not> (inc \<and> (0 < added_count r \<or> 0 < updated_count r)) \<longrightarrow>
       manifest_file ?d' = manifest_file d"
    by (rule impI)
  from c1 c1a c1b c2' c3' show ?thesis by (intro conjI)
qed

text \<open>
  A first run exports the script \<^verbatim>\<open>id1\<close>. In the second run \<^verbatim>\<open>id1\<close> is unchanged
  and \<^verbatim>\<open>id2\<close> is added: the row of \<^verbatim>\<open>id1\<close> stamped by the first run is gone from
  the manifest, and its row stamped by the second run is there.
\<close>

theorem manifest_rows_rewritten_witness:
  "distinct (map fst [(''id1'', foo_script ''1''), (''id2'', ''x'')])
   \<and> manifest_file (snd (export_userscripts sample_clock [(''id1'', foo_script ''1'')] empty_dir True))
       = Some (Json (JObj
           [(''scripts'', JArr [JObj [(''uuid'', JStr ''id1''), (''name'', JStr ''Foo''), (''filename'', JStr ''foo.user.js''),
               (''metadata'', JObj [(''name'', JStr ''Foo'')]),
               (''synced_at'', JStr ''2026-01-01T00:00:00'')]]),
            (''last_updated'', JStr ''2026-01-01T00:00:02'')]))
   \<and> \<not> isl (fst (export_userscripts (\<lambda>k. sample_clock (k + 5))
         [(''id1'', foo_script ''1''), (''id2'', ''x'')]
         (snd (export_userscripts sample_clock [(''id1'', foo_script ''1'')] empty_dir True)) True))
   \<and> added_count (projr (fst (export_userscripts (\<lambda>k. sample_clock (k + 5))
         [(''id1'', foo_script ''1''), (''id2'', ''x'')]
         (snd (export_userscripts sample_clock [(''id1'', foo_script ''1'')] empty_dir True)) True))) = 1
   \<and> updated_count (projr (fst (export_userscripts (\<lambda>k. sample_clock (k + 5))
         [(''id1'', foo_script ''1''), (''id2'', ''x'')]
         (snd (export_userscripts sample_clock [(''id1'', foo_script ''1'')] empty_dir True)) True))) = 0
   \<and> exported_list (projr (fst (export_userscripts (\<lambda>k. sample_clock (k + 5))
         [(''id1'', foo_script ''1''), (''id2'', ''x'')]
         (snd (export_userscripts sample_clock [(''id1'', foo_script ''1'')] empty_dir True)) True)))
       = [JObj [(''uuid'', JStr ''id1''), (''name'', JStr ''Foo''), (''filename'', JStr ''foo.user.js''),
               (''metadata'', JObj [(''name'', JStr ''Foo'')]),
               (''synced_at'', JStr ''2026-01-01T00:00:05'')],
          JObj [(''uuid'', JStr ''id2''), (''name'', JStr ''id2''), (''filename'', JStr ''id2.user.js''),
               (''metadata'', JObj []),
               (''synced_at'', JStr ''2026-01-01T00:00:06'')]]
   \<and> (\<exists>kvs rows.
         manifest_file (snd (export_userscripts (\<lambda>k. sample_clock (k + 5))
         [(''id1'', foo_script ''1''), (''id2'', ''x'')]
         (snd (export_userscripts sample_clock [(''id1'', foo_script ''1'')] empty_dir True)) True)) = Some (Json (JObj kvs))
         \<and> map_of kvs ''scripts'' = Some (JArr rows)
         \<and> map_of kvs ''last_updated'' = Some (JStr ''2026-01-01T00:00:08'')
         \<and> JObj [(''uuid'', JStr ''id1''), (''name'', JStr ''Foo''), (''filename'', JStr ''foo.user.js''),
               (''metadata'', JObj [(''name'', JStr ''Foo'')]),
               (''synced_at'', JStr ''2026-01-01T00:00:05'')] \<in> set rows
         \<and> JObj [(''uuid'', JStr ''id2''), (''name'', JStr ''id2''), (''filename'', JStr ''id2.user.js''),
               (''metadata'', JObj []),
               (''synced_at'', JStr ''2026-01-01T00:00:06'')] \<in> set rows
         \<and> JObj [(''uuid'', JStr ''id1''), (''name'', JStr ''Foo''), (''filename'', JStr ''foo.user.js''),
               (''metadata'', JObj [(''name'', JStr ''Foo'')]),
               (''synced_at'', JStr ''2026-01-01T00:00:00'')] \<notin> set rows)"
proof -
  let ?s = "[(''id1'', foo_script ''1''), (''id2'', ''x'')]"
  let ?now = "\<lambda>k. sample_clock (k + 5)"
  let ?d = "snd (export_userscripts sample_clock [(''id1'', foo_script ''1'')] empty_dir True)"
  let ?R = "export_userscripts ?now ?s ?d True"
  let ?row1 = "JObj [(''uuid'', JStr ''id1''), (''name'', JStr ''Foo''), (''filename'', JStr ''foo.user.js''),
               (''metadata'', JObj [(''name'', JStr ''Foo'')]),
               (''synced_at'', JStr ''2026-01-01T00:00:05'')]"
  let ?row2 = "JObj [(''uuid'', JStr ''id2''), (''name'', JStr ''id2''), (''filename'', JStr ''id2.user.js''),
               (''metadata'', JObj []),
               (''synced_at'', JStr ''2026-01-01T00:00:06'')]"
  let ?old = "JObj [(''uuid'', JStr ''id1''), (''name'', JStr ''Foo''), (''filename'', JStr ''foo.user.js''),
               (''metadata'', JObj [(''name'', JStr ''Foo'')]),
               (''synced_at'', JStr ''2026-01-01T00:00:00'')]"
  have dist: "distinct (map fst ?s)" by simp
  have before: "manifest_file ?d = Some (Json (JObj
           [(''scripts'', JArr [?old]), (''last_updated'', JStr ''2026-01-01T00:00:02'')]))"
    by code_simp
  have a: "\<not> isl (fst ?R)" by code_simp
  then obtain r where r: "fst ?R = Inr r" by (cases "fst ?R") auto
  have cnt: "added_count (projr (fst ?R)) = 1 \<and> updated_count (projr (fst ?R)) = 0" by code_simp
  with r have n: "0 < added_count r \<or> 0 < updated_count r" by simp
  note t = manifest_rows_rewritten [OF r dist]
  from t have len: "length (exported_list r) = length ?s"
    by (rule conjunct1 [OF conjunct2])
  from t have nth: "\<forall>k < length ?s. \<exists>name.
       script_name (fst (?s ! k)) (snd (?s ! k)) = JStr name \<and>
       exported_list r ! k =
         JObj [(''uuid'', JStr (fst (?s ! k))),
               (''name'', JStr name),
               (''filename'', JStr (slugify name @ ''.user.js'')),
               (''metadata'', JObj (parse_userscript_metadata (snd (?s ! k)))),
               (''synced_at'', JStr (sample_clock (k + 5)))]"
    by (rule conjunct1 [OF conjunct2 [OF conjunct2]])
  from t have man: "True \<and> (0 < added_count r \<or> 0 < updated_count r) \<longrightarrow>
       (\<exists>kvs rows. manifest_file (snd ?R) = Some (Json (JObj kvs))
          \<and> map_of kvs ''scripts'' = Some (JArr rows)
          \<and> map_of kvs ''last_updated'' = Some (JStr (sample_clock (length ?s + 1 + 5)))
          \<and> set (exported_list r) \<subseteq> set rows
          \<and> (\<forall>row \<in> set rows. \<forall>u \<in> fst ` set ?s.
                row_uuid row = Some (JStr u) \<longrightarrow> row \<in> set (exported_list r)))"
    by (rule conjunct1 [OF conjunct2 [OF conjunct2 [OF conjunct2]]])
  have n1: "script_name ''id1'' (foo_script ''1'') = JStr ''Foo''" by code_simp
  have n2: "script_name ''id2'' ''x'' = JStr ''id2''" by code_simp
  have f1: "slugify ''Foo'' @ ''.user.js'' = ''foo.user.js''" by code_simp
  have f2: "slugify ''id2'' @ ''.user.js'' = ''id2.user.js''" by code_simp
  have m1: "parse_userscript_metadata (foo_script ''1'') = [(''name'', JStr ''Foo'')]" by code_simp
  have m2: "parse_userscript_metadata ''x'' = []" by code_simp
  have s5: "sample_clock 5 = ''2026-01-01T00:00:05''" by code_simp
  have s6: "sample_clock 6 = ''2026-01-01T00:00:06''" by code_simp
  have s8: "sample_clock 8 = ''2026-01-01T00:00:08''" by code_simp
  from nth [rule_format, of 0] have e0: "exported_list r ! 0 = ?row1"
    by (simp add: n1 f1 m1 s5)
  from nth [rule_format, of "Suc 0"] have e1: "exported_list r ! Suc 0 = ?row2"
    by (simp add: n2 f2 m2 s6)
  from len obtain x y where xy: "exported_list r = [x, y]"
    by (cases "exported_list r"; cases "tl (exported_list r)") auto
  with e0 e1 have ex: "exported_list r = [?row1, ?row2]" by simp
  from man n obtain kvs rows where
    m: "manifest_file (snd ?R) = Some (Json (JObj kvs))"
       "map_of kvs ''scripts'' = Some (JArr rows)"
       "map_of kvs ''last_updated'' = Some (JStr (sample_clock (length ?s + 1 + 5)))"
       "set (exported_list r) \<subseteq> set rows"
    and same: "\<forall>row \<in> set rows. \<forall>u \<in> fst ` set ?s.
                row_uuid row = Some (JStr u) \<longrightarrow> row \<in> set (exported_list r)"
    by blast
  from m(4) have in1: "?row1 \<in> set rows" and in2: "?row2 \<in> set rows"
    unfolding ex by simp_all
  have ou: "row_uuid ?old = Some (JStr ''id1'')"
    by (simp add: row_uuid_def subscript_uuid_def)
  have out: "?old \<notin> set rows"
  proof
    assume "?old \<in> set rows"
    with same ou have "?old \<in> set (exported_list r)" by simp
    then show False unfolding ex by simp
  qed
  from m(3) have lu: "map_of kvs ''last_updated'' = Some (JStr ''2026-01-01T00:00:08'')"
    by (simp add: s8)
  from r cnt ex have c: "added_count (projr (fst ?R)) = 1" "updated_count (projr (fst ?R)) = 0"
    "exported_list (projr (fst ?R)) = [?row1, ?row2]"
    by simp_all
  from m(1,2) lu in1 in2 out
  have "\<exists>kvs rows.
         manifest_file (snd ?R) = Some (Json (JObj kvs))
         \<and> map_of kvs ''scripts'' = Some (JArr rows)
         \<and> map_of kvs ''last_updated'' = Some (JStr ''2026-01-01T00:00:08'')
         \<and> ?row1 \<in> set rows \<and> ?row2 \<in> set rows \<and> ?old \<notin> set rows"
    by blast
  with dist before a c show ?thesis by (intro conjI)
qed

text \<open>
  Claim C6. A run over the two scripts \<open>a\<close> and \<open>c\<close> returns with something added
  or updated; the manifest on disk is a dictionary whose \<^verbatim>\<open>scripts\<close> list is
  \<open>[A, B]\<close>, with \<open>A\<close> the row of \<open>a\<close> and \<open>B\<close> the row of another id. Then the
  manifest stored is that dictionary with \<^verbatim>\<open>scripts\<close> set to \<open>[A', B, C]\<close>, where
  \<open>A'\<close> and \<open>C\<close> are the run's entries for \<open>a\<close> and \<open>c\<close>, and with
  \<^verbatim>\<open>last_updated\<close> set to the clock's last reading.
\<close>

theorem manifest_merge:
  assumes "fst (export_userscripts now [(a, sa), (c, sc)] d True) = Inr r"
    and "0 < added_count r \<or> 0 < updated_count r"
    and "manifest_file d = Some (Json (JObj kvs))"
    and "map_of kvs ''scripts'' = Some (JArr [A, B])"
    and "row_uuid A = Some (JStr a)" and "row_uuid B = Some (JStr b)"
    and "b \<noteq> a" and "b \<noteq> c" and "a \<noteq> c"
  shows "exported_list r = [entry_of now 0 (a, sa), entry_of now 1 (c, sc)] \<and>
         manifest_file (snd (export_userscripts now [(a, sa), (c, sc)] d True)) =
           Some (Json (JObj
             (AList.update ''last_updated'' (JStr (now 3))
               (AList.update ''scripts''
                  (JArr [entry_of now 0 (a, sa), B, entry_of now 1 (c, sc)]) kvs))))"
proof -
  let ?s = "[(a, sa), (c, sc)]"
  let ?d' = "snd (export_userscripts now ?s d True)"
  let ?A' = "entry_of now 0 (a, sa)" and ?C = "entry_of now 1 (c, sc)"
  from export_userscripts_returned [OF assms(1)] obtain st where
    big: "export_loop now ?s (start_state d) = (None, st)
    \<and> r = \<lparr> exported_list = exported st, added_count = added st,
               updated_count = updated st, removed_count = 0 \<rparr>
    \<and> files ?d' = st_files st
    \<and> (True \<and> (added st > 0 \<or> updated st > 0) \<longrightarrow>
           (\<exists>m. update_manifest now (clock st) (manifest_file d) (exported st) = Inr m \<and>
               manifest_file ?d' = Some (Json m)))
    \<and> (\<not> (True \<and> (added st > 0 \<or> updated st > 0)) \<longrightarrow>
           manifest_file ?d' = manifest_file d)"
    ..
  from big have l: "export_loop now ?s (start_state d) = (None, st)"
    by (rule conjunct1)
  from big have r: "r = \<lparr> exported_list = exported st, added_count = added st,
               updated_count = updated st, removed_count = 0 \<rparr>"
    by (rule conjunct1 [OF conjunct2])
  from big have on: "True \<and> (added st > 0 \<or> updated st > 0) \<longrightarrow>
           (\<exists>m. update_manifest now (clock st) (manifest_file d) (exported st) = Inr m \<and>
               manifest_file ?d' = Some (Json m))"
    by (rule conjunct1 [OF conjunct2 [OF conjunct2 [OF conjunct2]]])
  from export_loop_exported [OF l]
  have e: "exported st = [?A', ?C]" and k: "clock st = 2"
    by (simp_all add: start_state_def upt_rec)
  from assms(2) r have "added st > 0 \<or> updated st > 0" by simp
  with on obtain m where
    m: "update_manifest now (clock st) (manifest_file d) (exported st) = Inr m"
       "manifest_file ?d' = Some (Json m)"
    by blast
  have sa: "subscript_uuid A = Inr (JStr a)" and sb: "subscript_uuid B = Inr (JStr b)"
    using assms(5,6) by (simp_all add: row_uuid_subscript)
  have lm: "load_manifest now 2 (manifest_file d) = JObj kvs"
    using assms(3) by (simp add: load_manifest_def)
  have us: "uuid_set [A, B] = Inr [JStr a, JStr b]"
    using sa sb by (simp add: hashable_def)
  have w: "\<forall>e \<in> set [?A', ?C]. \<exists>u. subscript_uuid e = Inr u"
    by (simp add: row_uuid_subscript [OF entry_of_uuid])
  have f: "foldl (merge_rows [JStr a, JStr b]) [A, B] [?A', ?C] = [?A', B, ?C]"
    using assms(5-9) by (simp add: merge_rows_def replace_rows_def entry_of_uuid)
  from update_manifest_well_formed [OF lm assms(4) us w] m(1)
  have "m = JObj (AList.update ''last_updated'' (JStr (now 3))
               (AList.update ''scripts'' (JArr [?A', B, ?C]) kvs))"
    unfolding e k f by simp
  with m(2) e r show ?thesis by simp
qed

theorem manifest_merge_witness:
  "manifest_file (snd (export_userscripts sample_clock [(''id1'', foo_script ''1''), (''id3'', ''x'')]
      (empty_dir \<lparr> manifest_file := Some (Json (JObj
          [(''scripts'', JArr [JObj [(''uuid'', JStr ''id1''), (''name'', JStr ''Old'')],
                               JObj [(''uuid'', JStr ''id9'')]]),
           (''last_updated'', JStr ''then'')])) \<rparr>) True))
   = Some (Json (JObj
       [(''scripts'',
         JArr [export_entry ''id1'' (foo_script ''1'') ''foo.user.js'' ''2026-01-01T00:00:00'',
               JObj [(''uuid'', JStr ''id9'')],
               export_entry ''id3'' ''x'' ''id3.user.js'' ''2026-01-01T00:00:01'']),
        (''last_updated'', JStr ''2026-01-01T00:00:03'')]))"
proof -
  let ?A = "JObj [(''uuid'', JStr ''id1''), (''name'', JStr ''Old'')]"
  let ?B = "JObj [(''uuid'', JStr ''id9'')]"
  let ?kvs = "[(''scripts'', JArr [?A, ?B]), (''last_updated'', JStr ''then'')]"
  let ?d = "empty_dir \<lparr> manifest_file := Some (Json (JObj ?kvs)) \<rparr>"
  let ?R = "export_userscripts sample_clock [(''id1'', foo_script ''1''), (''id3'', ''x'')] ?d True"
  have "\<not> isl (fst ?R)" by code_simp
  then obtain r where r: "fst ?R = Inr r" by (cases "fst ?R") auto
  have "added_count (projr (fst ?R)) = 2" by code_simp
  with r have n: "0 < added_count r \<or> 0 < updated_count r" by simp
  have m: "manifest_file ?d = Some (Json (JObj ?kvs))" by simp
  have s: "map_of ?kvs ''scripts'' = Some (JArr [?A, ?B])" by simp
  have a: "row_uuid ?A = Some (JStr ''id1'')" and b: "row_uuid ?B = Some (JStr ''id9'')"
    by (simp_all add: row_uuid_def subscript_uuid_def)
  have e: "AList.update ''last_updated'' (JStr (sample_clock 3))
             (AList.update ''scripts''
                (JArr [entry_of sample_clock 0 (''id1'', foo_script ''1''), ?B,
                       entry_of sample_clock 1 (''id3'', ''x'')]) ?kvs)
           = [(''scripts'',
               JArr [export_entry ''id1'' (foo_script ''1'') ''foo.user.js'' ''2026-01-01T00:00:00'',
                     ?B,
                     export_entry ''id3'' ''x'' ''id3.user.js'' ''2026-01-01T00:00:01'']),
              (''last_updated'', JStr ''2026-01-01T00:00:03'')]"
    by code_simp
  from manifest_merge [OF r n m s a b] show ?thesis
    unfolding e by simp
qed

lemma foldl_merge_rows_fresh:
  "\<forall>e \<in> set exps. row_uuid e \<noteq> None \<Longrightarrow> foldl (merge_rows []) rows exps = rows @ exps"
  by (induction exps arbitrary: rows) (auto simp: merge_rows_def)

text \<open>
  A missing manifest and a manifest the decoder rejects are recovered: the run
  stores a fresh manifest with the run's entries.
\<close>

lemma unreadable_manifest_recovered:
  assumes "mf = None \<or> mf = Some NotJson"
    and "\<forall>e \<in> set exps. row_uuid e \<noteq> None"
  shows "update_manifest now k mf exps =
           Inr (JObj [(''scripts'', JArr exps), (''last_updated'', JStr (now (k + 1)))])"
proof -
  let ?kvs = "[(''scripts'', JArr []), (''last_updated'', JStr (now k))]"
  from assms(1) have lm: "load_manifest now k mf = JObj ?kvs"
    by (auto simp: load_manifest_def)
  have s: "map_of ?kvs ''scripts'' = Some (JArr [])" by simp
  have u: "uuid_set [] = Inr []" by simp
  have w: "\<forall>e \<in> set exps. \<exists>u. subscript_uuid e = Inr u"
  proof
    fix e assume "e \<in> set exps"
    with assms(2) have "row_uuid e \<noteq> None" by blast
    then show "\<exists>u. subscript_uuid e = Inr u"
      by (cases "subscript_uuid e") (simp_all add: row_uuid_def)
  qed
  from update_manifest_well_formed [OF lm s u w] foldl_merge_rows_fresh [OF assms(2), of "[]"]
  show ?thesis by simp
qed

text \<open>
  Claim C3 fails on the code. A manifest file holding the JSON document \<^verbatim>\<open>{}\<close> is
  decoded without error; the lookup \<^verbatim>\<open>manifest.get('scripts', [])\<close> tolerates the
  missing key, the later \<^verbatim>\<open>manifest['scripts'].append(exp)\<close> does not, and the run
  ends in \<^verbatim>\<open>KeyError\<close> with the manifest file left as it was. A manifest file
  holding \<^verbatim>\<open>[]\<close> ends the run in \<^verbatim>\<open>AttributeError\<close>.
\<close>

theorem manifest_without_scripts_raises:
  "fst (export_userscripts sample_clock [(''id1'', foo_script ''1'')]
          (empty_dir \<lparr> manifest_file := Some (Json (JObj [])) \<rparr>) True) = Inl KeyError
   \<and> manifest_file (snd (export_userscripts sample_clock [(''id1'', foo_script ''1'')]
          (empty_dir \<lparr> manifest_file := Some (Json (JObj [])) \<rparr>) True)) = Some (Json (JObj []))
   \<and> fst (export_userscripts sample_clock [(''id1'', foo_script ''1'')]
          (empty_dir \<lparr> manifest_file := Some (Json (JArr [])) \<rparr>) True) = Inl AttributeError"
  by code_simp

lemma export_loop_total:
  assumes "\<forall>(u, s) \<in> set items. \<exists>f. script_filename u s = Inr f"
  shows "\<exists>st'. export_loop now items st = (None, st')"
  using assms
proof (induction items arbitrary: st)
  case Nil
  then show ?case by simp
next
  case (Cons item items)
  obtain u s where item: "item = (u, s)" by (cases item)
  with Cons.prems obtain f where f: "script_filename u s = Inr f" by auto
  from Cons.prems have "\<forall>(u, s) \<in> set items. \<exists>f. script_filename u s = Inr f" by simp
  from Cons.IH [OF this] item export_one_Inr [OF f, of now st] show ?case by simp
qed

lemma uuid_set_well_formed:
  "well_formed_rows rows \<Longrightarrow> \<exists>ex. uuid_set rows = Inr ex"
  by (induction rows) (auto simp: well_formed_rows_def)

lemma entries_have_uuid:
  "\<forall>e \<in> set (map2 (entry_of now) ks items). \<exists>u. subscript_uuid e = Inr u"
proof
  fix e assume "e \<in> set (map2 (entry_of now) ks items)"
  then obtain k u s where "e = entry_of now k (u, s)" by auto
  then show "\<exists>u. subscript_uuid e = Inr u"
    by (simp add: entry_of_def export_entry_uuid)
qed

text \<open>
  When a run returns: every script's name is a string (no \<^verbatim>\<open>@name\<close> is repeated),
  and the manifest is missing, or rejected by the decoder, or a dictionary whose
  \<^verbatim>\<open>scripts\<close> is a list of well-formed rows.
\<close>

lemma export_userscripts_returns:
  assumes "\<forall>(u, s) \<in> set scripts. \<exists>f. script_filename u s = Inr f"
    and "manifest_file d = None \<or> manifest_file d = Some NotJson \<or>
         (\<exists>kvs rows. manifest_file d = Some (Json (JObj kvs)) \<and>
            map_of kvs ''scripts'' = Some (JArr rows) \<and> well_formed_rows rows)"
  shows "\<exists>r. fst (export_userscripts now scripts d inc) = Inr r"
proof -
  from export_loop_total [OF assms(1)] obtain st where
    l: "export_loop now scripts (start_state d) = (None, st)" by blast
  from export_loop_exported [OF l]
  have e: "exported st = map2 (entry_of now) [0..<length scripts] scripts"
    by (simp add: start_state_def)
  have w: "\<forall>e \<in> set (exported st). \<exists>u. subscript_uuid e = Inr u"
    unfolding e by (rule entries_have_uuid)
  have "\<exists>m. update_manifest now (clock st) (manifest_file d) (exported st) = Inr m"
  proof -
    from assms(2) consider
      (fresh) "manifest_file d = None \<or> manifest_file d = Some NotJson"
      | (old) kvs rows where "manifest_file d = Some (Json (JObj kvs))"
          "map_of kvs ''scripts'' = Some (JArr rows)" "well_formed_rows rows"
      by blast
    then show ?thesis
    proof cases
      case fresh
      let ?kvs = "[(''scripts'', JArr []), (''last_updated'', JStr (now (clock st)))]"
      from fresh have lm: "load_manifest now (clock st) (manifest_file d) = JObj ?kvs"
        by (auto simp: load_manifest_def)
      have s: "map_of ?kvs ''scripts'' = Some (JArr [])" by simp
      have u: "uuid_set [] = Inr []" by simp
      from update_manifest_well_formed [OF lm s u w] show ?thesis by blast
    next
      case old
      from old(1) have lm: "load_manifest now (clock st) (manifest_file d) = JObj kvs"
        by (simp add: load_manifest_def)
      from uuid_set_well_formed [OF old(3)] obtain ex where u: "uuid_set rows = Inr ex" by blast
      from update_manifest_well_formed [OF lm old(2) u w] show ?thesis by blast
    qed
  qed
  then obtain m where "update_manifest now (clock st) (manifest_file d) (exported st) = Inr m"
    by blast
  with l show ?thesis
    by (simp add: export_userscripts_unfold)
qed

section \<open>The scanner on a record between fragments\<close>

lemma find_from_step:
  "find_from buf idx =
     (if idx < length buf
      then (if buf ! idx = CHR ''{'' \<and> startswith (drop (Suc idx) buf) [dquote] then Some idx
            else find_from buf (Suc idx))
      else None)"
proof (cases "idx < length buf")
  case True
  then have "drop idx buf = buf ! idx # drop (Suc idx) buf"
    by (simp add: Cons_nth_drop_Suc)
  with True show ?thesis by (simp add: find_from_def)
next
  case False
  then show ?thesis by (simp add: find_from_def)
qed

lemma find_from_Suc:
  assumes "find_from buf idx = Some s" and "idx < s"
  shows "find_from buf (Suc idx) = Some s"
  using assms by (subst (asm) find_from_step) (auto split: if_splits)

lemma find_from_between:
  assumes "find_from buf idx = Some s" and "idx \<le> p" and "p \<le> s"
  shows "find_from buf p = Some s"
  using assms(2,3)
proof (induction p)
  case 0
  with assms(1) show ?case by simp
next
  case (Suc p)
  show ?case
  proof (cases "idx = Suc p")
    case True
    with assms(1) show ?thesis by simp
  next
    case False
    with Suc.prems have "idx \<le> p" "p \<le> s" "p < s" by auto
    from find_from_Suc [OF Suc.IH [OF this(1,2)] this(3)] show ?thesis .
  qed
qed

lemma find_from_before:
  assumes "find_from buf n = Some n" and "idx \<le> n"
  shows "\<exists>s. find_from buf idx = Some s \<and> s \<le> n"
  using assms(2)
proof (induction "n - idx" arbitrary: idx)
  case 0
  with assms(1) show ?case by auto
next
  case (Suc k)
  then have lt: "idx < n" by simp
  from find_from_bounds [OF assms(1)] lt have len: "idx < length buf" by simp
  show ?case
  proof (cases "buf ! idx = CHR ''{'' \<and> startswith (drop (Suc idx) buf) [dquote]")
    case True
    with len lt show ?thesis by (subst find_from_step) auto
  next
    case False
    from Suc.hyps(2) lt have "k = n - Suc idx" "Suc idx \<le> n" by simp_all
    from Suc.hyps(1) [OF this] obtain s where "find_from buf (Suc idx) = Some s" "s \<le> n"
      by blast
    with False len show ?thesis by (subst find_from_step) auto
  qed
qed

lemma candidates_iff: "p \<in> set (candidates buf) \<longleftrightarrow> find_from buf p = Some p"
  using find_from_bounds [of buf p p] by (auto simp: candidates_def)

lemma scan_body_same_start:
  "find_from buf idx = find_from buf idx' \<Longrightarrow>
     scan_body loads buf idx found = scan_body loads buf idx' found"
  by (simp add: scan_body_def)

lemma scan_loop_same_start:
  assumes "find_from buf idx = find_from buf idx'"
  shows "scan_loop loads buf idx found = scan_loop loads buf idx' found"
proof -
  have "scan_loop loads buf idx found =
          (case scan_body loads buf idx found of
             Stop \<Rightarrow> Inr found
           | Abort e \<Rightarrow> Inl e
           | Advance start idx' found' \<Rightarrow> scan_loop loads buf idx' found')"
    by (rule scan_loop.simps)
  also have "\<dots> =
          (case scan_body loads buf idx' found of
             Stop \<Rightarrow> Inr found
           | Abort e \<Rightarrow> Inl e
           | Advance start idx' found' \<Rightarrow> scan_loop loads buf idx' found')"
    by (simp only: scan_body_same_start [OF assms])
  also have "\<dots> = scan_loop loads buf idx' found"
    by (rule scan_loop.simps [symmetric])
  finally show ?thesis .
qed

lemma scan_body_skipped:
  assumes "find_from buf idx = Some start" and "candidate_skipped loads buf limit start"
    and "start < limit"
  shows "\<exists>idx'. scan_body loads buf idx found = Advance start idx' found \<and> idx' \<le> limit"
  using assms
  by (auto simp: scan_body_def candidate_skipped_def Let_def)

lemma brace_scan_shift:
  "brace_scan s i b q e = map_option (\<lambda>r. r + i) (brace_scan s 0 b q e)"
proof (induction s arbitrary: i b q e)
  case Nil
  then show ?case by simp
next
  case (Cons c cs)
  have "brace_scan cs (Suc i) b' q' e' = map_option (\<lambda>r. r + i) (brace_scan cs (Suc 0) b' q' e')"
    for b' q' e'
    using Cons.IH [of "Suc i" b' q' e'] Cons.IH [of "Suc 0" b' q' e']
    by (simp add: option.map_comp o_def)
  then show ?case by simp
qed

lemma brace_scan_append:
  "brace_scan xs i b q e = Some r \<Longrightarrow> brace_scan (xs @ ys) i b q e = Some r"
proof (induction xs arbitrary: i b q e)
  case Nil
  then show ?case by simp
next
  case (Cons c cs)
  from Cons.prems show ?case
    by (auto split: if_splits intro: Cons.IH)
qed

lemma startswith_append: "startswith xs p \<Longrightarrow> startswith (xs @ ys) p"
  by (induction xs p rule: startswith.induct) auto

lemma contains_append: "contains sub xs \<Longrightarrow> contains sub (xs @ ys)"
proof (induction xs)
  case Nil
  then show ?case by (cases ys) simp_all
next
  case (Cons c cs)
  then show ?case using startswith_append [of "c # cs" sub ys] by auto
qed

lemma startswith_find_at:
  "startswith s [CHR ''{'', dquote] \<Longrightarrow> find_at s i = Some i"
  by (cases s) auto

lemma record_is_candidate:
  assumes "well_formed_record loads rec items"
  shows "find_from (pre @ rec @ post) (length pre) = Some (length pre)"
proof -
  from assms have sw: "startswith rec [CHR ''{'', dquote]"
    by (simp add: well_formed_record_def)
  from startswith_find_at [OF startswith_append [OF sw, of post]] show ?thesis
    by (simp add: find_from_def)
qed

text \<open>The iteration at the record: the record is decoded and the index moves to its end.\<close>

lemma scan_body_record:
  assumes "well_formed_record loads rec items"
  shows "scan_body loads (pre @ rec @ post) (length pre) found =
           Advance (length pre) (length pre + length rec) (collect_items items found)"
proof -
  let ?t = "pre @ rec @ post" and ?n = "length pre"
  from assms have sw: "startswith rec [CHR ''{'', dquote]"
    and cs: "contains sentinel (take 5000 rec)"
    and bs: "brace_scan rec 0 0 False False = Some (length rec)"
    and ld: "loads rec = Inr (JObj items)"
    by (simp_all add: well_formed_record_def)
  from sw have ne: "rec \<noteq> []" by (cases rec) auto
  have f: "find_from ?t ?n = Some ?n"
    by (rule record_is_candidate [OF assms])
  have "take 5000 (rec @ post) = take 5000 rec @ take (5000 - length rec) post"
    by simp
  with contains_append [OF cs] have w: "contains sentinel (slice ?t ?n (?n + 5000))"
    by (simp add: slice_def)
  have "brace_scan (rec @ post) ?n 0 False False = Some (length rec + ?n)"
    using brace_scan_append [OF bs, of post]
    by (subst brace_scan_shift) simp
  then have e: "record_end ?t ?n = ?n + length rec"
    by (simp add: record_end_def)
  have s: "slice ?t ?n (?n + length rec) = rec"
    by (simp add: slice_def)
  from f w e s ld ne show ?thesis
    by (simp add: scan_body_def collect_def)
qed

text \<open>The iterations before the record: skipped candidates leave \<open>found\<close> as it is.\<close>

lemma scan_loop_before:
  assumes "find_from buf n = Some n"
    and "\<forall>p \<in> set (candidates buf). p < n \<longrightarrow> candidate_skipped loads buf n p"
    and "idx \<le> n"
  shows "scan_loop loads buf idx found = scan_loop loads buf n found"
  using assms(3)
proof (induction "n - idx" arbitrary: idx rule: less_induct)
  case less
  from find_from_before [OF assms(1) less.prems] obtain s where
    s: "find_from buf idx = Some s" "s \<le> n" by blast
  show ?case
  proof (cases "s = n")
    case True
    with s assms(1) show ?thesis by (intro scan_loop_same_start) simp
  next
    case False
    with s have lt: "s < n" by simp
    from find_from_bounds [OF s(1)] have ge: "idx \<le> s" by simp
    from find_from_between [OF s(1) ge] have "find_from buf s = Some s" by simp
    then have "s \<in> set (candidates buf)" by (simp add: candidates_iff)
    with assms(2) lt have "candidate_skipped loads buf n s" by simp
    from scan_body_skipped [OF s(1) this lt, of found] obtain idx' where
      a: "scan_body loads buf idx found = Advance s idx' found" and le: "idx' \<le> n"
      by blast
    from scan_body_advance [OF a] have "s < idx'" by simp
    with ge le have "n - idx' < n - idx" by simp
    from less.hyps [OF this le] scan_loop_Advance [OF a] show ?thesis by simp
  qed
qed

text \<open>The iterations after the record: the same, to the end of the buffer.\<close>

lemma scan_loop_after:
  assumes "\<forall>p \<in> set (candidates buf). m \<le> p \<longrightarrow> candidate_skipped loads buf (length buf) p"
    and "m \<le> idx"
  shows "scan_loop loads buf idx found = Inr found"
  using assms(2)
proof (induction "length buf - idx" arbitrary: idx rule: less_induct)
  case less
  show ?case
  proof (cases "find_from buf idx")
    case None
    then have "scan_body loads buf idx found = Stop" by (simp add: scan_body_def)
    then show ?thesis by (rule scan_loop_Stop)
  next
    case (Some s)
    from find_from_bounds [OF Some] have b: "idx \<le> s" "s < length buf" by simp_all
    from find_from_between [OF Some b(1)] have "find_from buf s = Some s" by simp
    then have "s \<in> set (candidates buf)" by (simp add: candidates_iff)
    with assms(1) less.prems b(1) have "candidate_skipped loads buf (length buf) s" by simp
    from scan_body_skipped [OF Some this b(2), of found] obtain idx' where
      a: "scan_body loads buf idx found = Advance s idx' found" by blast
    from scan_body_advance [OF a] b less.prems
    have "length buf - idx' < length buf - idx" "m \<le> idx'" by simp_all
    from less.hyps [OF this] scan_loop_Advance [OF a] show ?thesis by simp
  qed
qed

text \<open>
  Claim C5, as amended. A buffer consists of a fragment, a well-formed record and a
  second fragment. Every candidate start inside the first fragment is skipped
  within that fragment, and every candidate start in the second fragment is
  skipped. Then the scanner raises nothing and returns exactly the record's
  mapping: its pairs whose value is a string containing the sentinel.
\<close>

theorem scanner_skips_fragments:
  assumes "well_formed_record loads rec items"
    and "\<forall>p \<in> set (candidates (pre @ rec @ post)).
           p < length pre \<longrightarrow> candidate_skipped loads (pre @ rec @ post) (length pre) p"
    and "\<forall>p \<in> set (candidates (pre @ rec @ post)).
           length pre + length rec \<le> p \<longrightarrow>
             candidate_skipped loads (pre @ rec @ post) (length (pre @ rec @ post)) p"
  shows "parse_scripts_from_text loads (pre @ rec @ post) = Inr (collect_items items [])"
proof -
  let ?t = "pre @ rec @ post"
  note r = scan_body_record [OF assms(1), of pre post "[]"]
  have f: "find_from ?t (length pre) = Some (length pre)"
    by (rule record_is_candidate [OF assms(1)])
  have "parse_scripts_from_text loads ?t = scan_loop loads ?t 0 []"
    by (simp add: parse_scripts_from_text_def)
  also have "\<dots> = scan_loop loads ?t (length pre) []"
    by (rule scan_loop_before [OF f assms(2)]) simp
  also have "\<dots> = scan_loop loads ?t (length pre + length rec) (collect_items items [])"
    by (rule scan_loop_Advance [OF r])
  also have "\<dots> = Inr (collect_items items [])"
    by (rule scan_loop_after [OF assms(3)]) simp
  finally show ?thesis .
qed

theorem scanner_skips_fragments_witness:
  \<open>parse_scripts_from_text json_loads (''{"a" b}'' @ ''{"i":"==UserScript=="}'' @ ''{"c":'')
     = Inr [(''i'', ''==UserScript=='')]\<close>
proof -
  let ?pre = \<open>''{"a" b}''\<close> and ?rec = \<open>''{"i":"==UserScript=="}''\<close> and ?post = \<open>''{"c":''\<close>
  let ?items = "[(''i'', JStr ''==UserScript=='')]"
  have w: "well_formed_record json_loads ?rec ?items"
    by code_simp
  have a: "\<forall>p \<in> set (candidates (?pre @ ?rec @ ?post)).
           p < length ?pre \<longrightarrow> candidate_skipped json_loads (?pre @ ?rec @ ?post) (length ?pre) p"
    by code_simp
  have b: "\<forall>p \<in> set (candidates (?pre @ ?rec @ ?post)).
           length ?pre + length ?rec \<le> p \<longrightarrow>
             candidate_skipped json_loads (?pre @ ?rec @ ?post) (length (?pre @ ?rec @ ?post)) p"
    by code_simp
  have c: "collect_items ?items [] = [(''i'', ''==UserScript=='')]"
    by code_simp
  from scanner_skips_fragments [OF w a b] show ?thesis
    unfolding c .
qed

text \<open>
  The claim as it was stated fails: a fragment cut off inside a string turns the
  scanner's reading of the quotes around, so that a closing brace inside the
  record's script ends the candidate. The decoder rejects that candidate, the search
  goes on behind the record's start, and the record, which alone yields its
  mapping, is lost.
\<close>

theorem scanner_skips_fragments_counterexample:
  \<open>parse_scripts_from_text json_loads (''{"a":"'' @ ''{"id1":"}// ==UserScript=="}'') = Inr []
   \<and> well_formed_record json_loads ''{"id1":"}// ==UserScript=="}''
        [(''id1'', JStr ''}// ==UserScript=='')]
   \<and> parse_scripts_from_text json_loads ''{"id1":"}// ==UserScript=="}''
        = Inr [(''id1'', ''}// ==UserScript=='')]\<close>
  by code_simp

end
